theory Spec2Isabelle
  imports Main "HOL-Library.AList"
begin

section \<open>Python values and exceptions\<close>

text \<open>
  A Python \<open>str\<close> is modelled as a \<^typ>\<open>string\<close>: every \<^typ>\<open>char\<close> stands for one
  code point below 256. An exception that leaves a function is the \<open>Inl\<close> branch of the
  result; the argument of \<open>ValueError\<close> and \<open>OverflowError\<close> is the text \<open>str(e)\<close> gives.
  A method that mutates its object returns the object as it is when the method is left,
  also when it is left by an exception.
\<close>

datatype error =
    ValueError string
  | KeyError
  | IndexError
  | OverflowError string
  | EOFError

section \<open>Fields: Phone\<close>

text \<open>
  \<open>\d\<close> of Python's \<open>re\<close> on a \<open>str\<close> pattern: the decimal digits. Below code point
  256 these are \<open>0\<close> to \<open>9\<close>.
\<close>

definition is_digit :: "char \<Rightarrow> bool" where
  "is_digit c = (48 \<le> (of_char c :: nat) \<and> (of_char c :: nat) \<le> 57)"

text \<open>\<open>Phone._is_valid\<close>: \<open>bool(re.fullmatch(r"\d{10}", value))\<close>.\<close>

definition is_valid :: "string \<Rightarrow> bool" where
  "is_valid v = (length v = 10 \<and> list_all is_digit v)"

text \<open>\<open>Phone.__init__\<close>: the stored value, or the \<open>ValueError\<close> of a malformed one.\<close>

definition Phone :: "string \<Rightarrow> error + string" where
  "Phone v =
     (if \<not> is_valid v then Inl (ValueError ''Phone number must be 10 digits.'')
      else Inr v)"

section \<open>Calendar dates\<close>

text \<open>
  \<open>datetime.date\<close>: three integer fields. The functions below follow the date
  arithmetic of the Python library (proleptic Gregorian calendar, ordinal 1 is
  0001-01-01, years 1 to 9999).
\<close>

record date =
  year :: int
  month :: int
  day :: int

definition MINYEAR :: int where "MINYEAR = 1"
definition MAXYEAR :: int where "MAXYEAR = 9999"
definition MAXORDINAL :: int where "MAXORDINAL = 3652059"

text \<open>The month tables; index 0 is a placeholder.\<close>

definition DAYS_IN_MONTH :: "int list" where
  "DAYS_IN_MONTH = [-1, 31, 28, 31, 30, 31, 30, 31, 31, 30, 31, 30, 31]"

definition DAYS_BEFORE_MONTH :: "int list" where
  "DAYS_BEFORE_MONTH = [-1, 0, 31, 59, 90, 120, 151, 181, 212, 243, 273, 304, 334]"

definition is_leap :: "int \<Rightarrow> bool" where
  "is_leap y = (y mod 4 = 0 \<and> (y mod 100 \<noteq> 0 \<or> y mod 400 = 0))"

definition days_before_year :: "int \<Rightarrow> int" where
  "days_before_year y = (let z = y - 1 in z * 365 + z div 4 - z div 100 + z div 400)"

definition days_in_month :: "int \<Rightarrow> int \<Rightarrow> int" where
  "days_in_month y m = (if m = 2 \<and> is_leap y then 29 else DAYS_IN_MONTH ! nat m)"

definition days_before_month :: "int \<Rightarrow> int \<Rightarrow> int" where
  "days_before_month y m =
     DAYS_BEFORE_MONTH ! nat m + (if m > 2 \<and> is_leap y then 1 else 0)"

definition ymd2ord :: "int \<Rightarrow> int \<Rightarrow> int \<Rightarrow> int" where
  "ymd2ord y m d = days_before_year y + days_before_month y m + d"

text \<open>\<open>_ord2ymd\<close>: the date of an ordinal, by the 400, 100, 4 and 1 year cycles.\<close>

definition ord2ymd :: "int \<Rightarrow> date" where
  "ord2ymd ordinal =
     (let n = ordinal - 1;
          n400 = n div 146097; n = n mod 146097;
          n100 = n div 36524; n = n mod 36524;
          n4 = n div 1461; n = n mod 1461;
          n1 = n div 365; n = n mod 365;
          y = n400 * 400 + 1 + n100 * 100 + n4 * 4 + n1
      in if n1 = 4 \<or> n100 = 4 then \<lparr>year = y - 1, month = 12, day = 31\<rparr>
         else
           let leapyear = (n1 = 3 \<and> (n4 \<noteq> 24 \<or> n100 = 3));
               m = (n + 50) div 32;
               preceding = DAYS_BEFORE_MONTH ! nat m + (if m > 2 \<and> leapyear then 1 else 0)
           in if preceding > n
              then \<lparr>year = y, month = m - 1,
                     day = n - (preceding -
                            (DAYS_IN_MONTH ! nat (m - 1) +
                             (if m - 1 = 2 \<and> leapyear then 1 else 0))) + 1\<rparr>
              else \<lparr>year = y, month = m, day = n - preceding + 1\<rparr>)"

text \<open>Decimal text of a number, as \<open>str\<close> and the \<open>%d\<close> conversions give it.\<close>

fun str_nat :: "nat \<Rightarrow> string" where
  "str_nat n =
     (if n < 10 then [char_of (48 + n)]
      else str_nat (n div 10) @ [char_of (48 + n mod 10)])"

declare str_nat.simps [simp del]

definition str_int :: "int \<Rightarrow> string" where
  "str_int i = (if i < 0 then CHR ''-'' # str_nat (nat (- i)) else str_nat (nat i))"

definition zfill :: "nat \<Rightarrow> string \<Rightarrow> string" where
  "zfill w s = replicate (w - length s) CHR ''0'' @ s"

text \<open>
  The constructor \<open>date(year, month, day)\<close> checks its fields and raises \<open>ValueError\<close>,
  here with the texts of CPython's C implementation up to version 3.13.
\<close>

definition date_new :: "int \<Rightarrow> int \<Rightarrow> int \<Rightarrow> error + date" where
  "date_new y m d =
     (if \<not> (MINYEAR \<le> y \<and> y \<le> MAXYEAR)
      then Inl (ValueError (''year '' @ str_int y @ '' is out of range''))
      else if \<not> (1 \<le> m \<and> m \<le> 12) then Inl (ValueError ''month must be in 1..12'')
      else if \<not> (1 \<le> d \<and> d \<le> days_in_month y m)
      then Inl (ValueError ''day is out of range for month'')
      else Inr \<lparr>year = y, month = m, day = d\<rparr>)"

text \<open>\<open>self.replace(year=y)\<close> builds a new date from the changed fields.\<close>

definition replace_year :: "date \<Rightarrow> int \<Rightarrow> error + date" where
  "replace_year self y = date_new y (month self) (day self)"

definition toordinal :: "date \<Rightarrow> int" where
  "toordinal self = ymd2ord (year self) (month self) (day self)"

definition fromordinal :: "int \<Rightarrow> date" where
  "fromordinal n = ord2ymd n"

text \<open>\<open>self.weekday()\<close>: Monday is 0, Saturday 5, Sunday 6.\<close>

definition weekday :: "date \<Rightarrow> int" where
  "weekday self = (toordinal self + 6) mod 7"

text \<open>\<open>self < other\<close> compares year, month and day in this order.\<close>

definition date_less :: "date \<Rightarrow> date \<Rightarrow> bool" where
  "date_less a b =
     (year a < year b \<or>
      (year a = year b \<and> (month a < month b \<or> (month a = month b \<and> day a < day b))))"

text \<open>\<open>(self - other).days\<close>\<close>

definition days_between :: "date \<Rightarrow> date \<Rightarrow> int" where
  "days_between self other = toordinal self - toordinal other"

text \<open>\<open>self + timedelta(days=k)\<close>\<close>

definition add_days :: "date \<Rightarrow> int \<Rightarrow> error + date" where
  "add_days self k =
     (let ordinal = toordinal self + k
      in if 0 < ordinal \<and> ordinal \<le> MAXORDINAL then Inr (fromordinal ordinal)
         else Inl (OverflowError ''date value out of range''))"

text \<open>
  \<open>self.strftime("%d.%m.%Y")\<close>: day and month on two digits, the year on four (a year
  below 1000 is padded with zeros, as the library documents it).
\<close>

definition strftime_dmY :: "date \<Rightarrow> string" where
  "strftime_dmY self =
     zfill 2 (str_int (day self)) @ ''.'' @ zfill 2 (str_int (month self)) @ ''.'' @
     zfill 4 (str_int (year self))"

subsection \<open>Parsing a date\<close>

text \<open>
  \<open>datetime.strptime(value, "%d.%m.%Y")\<close> matches the text against the regular
  expression of the format,
  \<^verbatim>\<open>(?P<d>3[0-1]|[1-2]\d|0[1-9]|[1-9]| [1-9])\.(?P<m>1[0-2]|0[1-9]|[1-9])\.(?P<Y>\d\d\d\d)\<close>,
  from the start of the text, refuses text left over after the match, and builds the
  date from the three groups. A piece of the expression maps a text to the list of its
  matches, each with the rest of the text, in the order in which backtracking tries them.
\<close>

definition in_range :: "char \<Rightarrow> char \<Rightarrow> char \<Rightarrow> bool" where
  "in_range lo hi c =
     ((of_char lo :: nat) \<le> of_char c \<and> (of_char c :: nat) \<le> of_char hi)"

definition re_two :: "(char \<Rightarrow> bool) \<Rightarrow> (char \<Rightarrow> bool) \<Rightarrow> string \<Rightarrow> (string \<times> string) list" where
  "re_two p q s =
     (case s of a # b # rest \<Rightarrow> if p a \<and> q b then [([a, b], rest)] else [] | _ \<Rightarrow> [])"

definition re_one :: "(char \<Rightarrow> bool) \<Rightarrow> string \<Rightarrow> (string \<times> string) list" where
  "re_one p s = (case s of a # rest \<Rightarrow> if p a then [([a], rest)] else [] | _ \<Rightarrow> [])"

definition re_d :: "string \<Rightarrow> (string \<times> string) list" where
  "re_d s =
     re_two (\<lambda>c. c = CHR ''3'') (in_range CHR ''0'' CHR ''1'') s @
     re_two (in_range CHR ''1'' CHR ''2'') is_digit s @
     re_two (\<lambda>c. c = CHR ''0'') (in_range CHR ''1'' CHR ''9'') s @
     re_one (in_range CHR ''1'' CHR ''9'') s @
     re_two (\<lambda>c. c = CHR '' '') (in_range CHR ''1'' CHR ''9'') s"

definition re_m :: "string \<Rightarrow> (string \<times> string) list" where
  "re_m s =
     re_two (\<lambda>c. c = CHR ''1'') (in_range CHR ''0'' CHR ''2'') s @
     re_two (\<lambda>c. c = CHR ''0'') (in_range CHR ''1'' CHR ''9'') s @
     re_one (in_range CHR ''1'' CHR ''9'') s"

definition re_Y :: "string \<Rightarrow> (string \<times> string) list" where
  "re_Y s =
     (case s of
        a # b # c # d # rest \<Rightarrow>
          if is_digit a \<and> is_digit b \<and> is_digit c \<and> is_digit d
          then [([a, b, c, d], rest)] else []
      | _ \<Rightarrow> [])"

definition re_dot :: "string \<Rightarrow> string list" where
  "re_dot s = (case s of c # rest \<Rightarrow> if c = CHR ''.'' then [rest] else [] | [] \<Rightarrow> [])"

definition format_regex_match :: "string \<Rightarrow> (string \<times> string \<times> string \<times> string) list" where
  "format_regex_match s =
     concat (map (\<lambda>(d, r1).
       concat (map (\<lambda>r2.
         concat (map (\<lambda>(m, r3).
           concat (map (\<lambda>r4.
             map (\<lambda>(y, r5). (d, m, y, r5)) (re_Y r4))
           (re_dot r3)))
         (re_m r2)))
       (re_dot r1)))
     (re_d s))"

text \<open>\<open>int(text)\<close> on a group of the match: digits after optional blanks.\<close>

definition py_int :: "string \<Rightarrow> int" where
  "py_int s =
     foldl (\<lambda>acc c. 10 * acc + (int (of_char c) - 48)) 0 (dropWhile (\<lambda>c. c = CHR '' '') s)"

text \<open>
  The texts of the two \<open>ValueError\<close>s of a failed match are shortened here (Python
  quotes the input in them); \<open>Birthday.__init__\<close> replaces them anyway.
\<close>

definition strptime_dmY :: "string \<Rightarrow> error + date" where
  "strptime_dmY s =
     (case format_regex_match s of
        [] \<Rightarrow> Inl (ValueError ''time data does not match format'')
      | (d, m, y, rest) # _ \<Rightarrow>
          if rest \<noteq> [] then Inl (ValueError ''unconverted data remains'')
          else date_new (py_int y) (py_int m) (py_int d))"

section \<open>Fields: Birthday\<close>

record Birthday =
  "value" :: string
  date :: date

text \<open>
  \<open>Birthday.__init__\<close>: every \<open>ValueError\<close> of the parse becomes the one of the class.
\<close>

definition Birthday_init :: "string \<Rightarrow> error + Birthday" where
  "Birthday_init v =
     (case strptime_dmY v of
        Inl (ValueError m) \<Rightarrow> Inl (ValueError ''Invalid date format. Use DD.MM.YYYY.'')
      | Inl e \<Rightarrow> Inl e
      | Inr d \<Rightarrow> Inr \<lparr>value = v, date = d\<rparr>)"

section \<open>Record\<close>

text \<open>
  A \<open>Record\<close> holds its name, the list of its phones and an optional birthday. A
  \<open>Phone\<close> object is represented by its \<open>value\<close>: the methods create one object per
  stored phone, so the object that \<open>find_phone\<close> returns is the first entry of the list
  with that value, and \<open>self.phones.remove(phone)\<close>, which compares by identity,
  removes exactly that entry.
\<close>

record Record =
  name :: string
  phones :: "string list"
  birthday :: "Birthday option"

text \<open>\<open>Record.__init__\<close>\<close>

definition Record_init :: "string \<Rightarrow> Record" where
  "Record_init n = \<lparr>name = n, phones = [], birthday = None\<rparr>"

text \<open>\<open>Record.find_phone\<close>: the first phone with the given value, or \<open>None\<close>.\<close>

fun find_phone_loop :: "string list \<Rightarrow> string \<Rightarrow> string option" where
  "find_phone_loop [] phone_number = None"
| "find_phone_loop (phone # rest) phone_number =
     (if phone = phone_number then Some phone else find_phone_loop rest phone_number)"

definition find_phone :: "Record \<Rightarrow> string \<Rightarrow> string option" where
  "find_phone self phone_number = find_phone_loop (phones self) phone_number"

text \<open>
  \<open>Record.add_phone\<close> of \<open>task_01_address_book.py\<close>: construct the \<open>Phone\<close>, append it.
\<close>

definition add_phone_t1 :: "Record \<Rightarrow> string \<Rightarrow> (error + unit) \<times> Record" where
  "add_phone_t1 self phone_number =
     (case Phone phone_number of
        Inl e \<Rightarrow> (Inl e, self)
      | Inr phone \<Rightarrow> (Inr (), self\<lparr>phones := phones self @ [phone]\<rparr>))"

text \<open>
  \<open>Record.add_phone\<close> of \<open>task_02_assistant_bot.py\<close>: a number found in the record is
  refused first; a \<open>Phone\<close> object is always true in a condition.
\<close>

definition add_phone_t2 :: "Record \<Rightarrow> string \<Rightarrow> (error + unit) \<times> Record" where
  "add_phone_t2 self phone_number =
     (case find_phone self phone_number of
        Some found \<Rightarrow>
          (Inl (ValueError (''Phone '' @ phone_number @ '' already exists.'')), self)
      | None \<Rightarrow>
          (case Phone phone_number of
             Inl e \<Rightarrow> (Inl e, self)
           | Inr phone \<Rightarrow> (Inr (), self\<lparr>phones := phones self @ [phone]\<rparr>)))"

text \<open>\<open>Record.remove_phone\<close> (the same in both files).\<close>

definition remove_phone :: "Record \<Rightarrow> string \<Rightarrow> (error + unit) \<times> Record" where
  "remove_phone self phone_number =
     (case find_phone self phone_number of
        Some phone \<Rightarrow> (Inr (), self\<lparr>phones := remove1 phone (phones self)\<rparr>)
      | None \<Rightarrow> (Inr (), self))"

text \<open>
  \<open>Record.edit_phone\<close> of \<open>task_01_address_book.py\<close>: remove the old phone, then add
  the new one.
\<close>

definition edit_phone_t1 :: "Record \<Rightarrow> string \<Rightarrow> string \<Rightarrow> (error + unit) \<times> Record" where
  "edit_phone_t1 self old_number new_number =
     (case find_phone self old_number of
        Some phone \<Rightarrow>
          add_phone_t1 (self\<lparr>phones := remove1 phone (phones self)\<rparr>) new_number
      | None \<Rightarrow> (Inr (), self))"

text \<open>
  \<open>Record.edit_phone\<close> of \<open>task_02_assistant_bot.py\<close>: add the new phone, then remove
  the old one.
\<close>

definition edit_phone_t2 :: "Record \<Rightarrow> string \<Rightarrow> string \<Rightarrow> (error + unit) \<times> Record" where
  "edit_phone_t2 self old_number new_number =
     (case find_phone self old_number of
        Some phone \<Rightarrow>
          (case add_phone_t2 self new_number of
             (Inl e, self') \<Rightarrow> (Inl e, self')
           | (Inr u, self') \<Rightarrow> (Inr (), self'\<lparr>phones := remove1 phone (phones self')\<rparr>))
      | None \<Rightarrow> (Inr (), self))"

text \<open>\<open>Record.add_birthday\<close>: the birthday is replaced once the new one is built.\<close>

definition Record_add_birthday :: "Record \<Rightarrow> string \<Rightarrow> (error + unit) \<times> Record" where
  "Record_add_birthday self birthday_str =
     (case Birthday_init birthday_str of
        Inl e \<Rightarrow> (Inl e, self)
      | Inr b \<Rightarrow> (Inr (), self\<lparr>birthday := Some b\<rparr>))"

text \<open>\<open>sep.join(xs)\<close> and \<open>Record.__str__\<close>.\<close>

fun join :: "string \<Rightarrow> string list \<Rightarrow> string" where
  "join sep [] = []"
| "join sep [x] = x"
| "join sep (x # y # ys) = x @ sep @ join sep (y # ys)"

definition Record_str :: "Record \<Rightarrow> string" where
  "Record_str self =
     (let phones_str = (if phones self \<noteq> [] then join ''; '' (phones self) else ''None'');
          birthday_str = (case birthday self of Some b \<Rightarrow> value b | None \<Rightarrow> ''None'')
      in ''Contact name: '' @ name self @ '', phones: '' @ phones_str @
         '', birthday: '' @ birthday_str)"

section \<open>AddressBook\<close>

text \<open>
  The dictionary \<open>self.data\<close> keeps its keys in insertion order, and assigning to a key
  it has keeps the key's place: an association list with \<^const>\<open>AList.update\<close>. A
  handler that changes a record it found changes the record stored under that key.
\<close>

type_synonym AddressBook = "(string \<times> Record) list"

definition add_record :: "AddressBook \<Rightarrow> Record \<Rightarrow> AddressBook" where
  "add_record self record = AList.update (name record) record self"

definition find :: "AddressBook \<Rightarrow> string \<Rightarrow> Record option" where
  "find self n = map_of self n"

definition delete :: "AddressBook \<Rightarrow> string \<Rightarrow> AddressBook" where
  "delete self n = (if n \<in> fst ` set self then AList.delete n self else self)"

definition data_values :: "AddressBook \<Rightarrow> Record list" where
  "data_values self = map snd self"

text \<open>
  \<open>AddressBook.get_upcoming_birthdays\<close> (the same in both files), with the value of
  \<open>date.today()\<close> as an argument. One step of the loop over the records, then the
  loop with the list built so far; an emitted dictionary is the pair of its \<open>name\<close> and
  its \<open>congratulation_date\<close>.
\<close>

definition upcoming_step ::
  "date \<Rightarrow> Record \<Rightarrow> (string \<times> string) list \<Rightarrow> error + (string \<times> string) list" where
  "upcoming_step today record upcoming_birthdays =
     (case birthday record of
        None \<Rightarrow> Inr upcoming_birthdays
      | Some b \<Rightarrow>
          (case replace_year (date b) (year today) of
             Inl e \<Rightarrow> Inl e
           | Inr this_year \<Rightarrow>
               (case (if date_less this_year today
                      then replace_year this_year (year today + 1)
                      else Inr this_year) of
                  Inl e \<Rightarrow> Inl e
                | Inr birthday_this_year \<Rightarrow>
                    (let delta_days = days_between birthday_this_year today
                     in if 0 \<le> delta_days \<and> delta_days \<le> 7
                        then
                          (case (if weekday birthday_this_year = 5
                                 then add_days birthday_this_year 2
                                 else if weekday birthday_this_year = 6
                                 then add_days birthday_this_year 1
                                 else Inr birthday_this_year) of
                             Inl e \<Rightarrow> Inl e
                           | Inr congratulation_date \<Rightarrow>
                               Inr (upcoming_birthdays @
                                    [(name record, strftime_dmY congratulation_date)]))
                        else Inr upcoming_birthdays))))"

fun upcoming_loop ::
  "date \<Rightarrow> Record list \<Rightarrow> (string \<times> string) list \<Rightarrow> error + (string \<times> string) list" where
  "upcoming_loop today [] upcoming_birthdays = Inr upcoming_birthdays"
| "upcoming_loop today (record # rest) upcoming_birthdays =
     (case upcoming_step today record upcoming_birthdays of
        Inl e \<Rightarrow> Inl e
      | Inr upcoming_birthdays' \<Rightarrow> upcoming_loop today rest upcoming_birthdays')"

definition get_upcoming_birthdays :: "date \<Rightarrow> AddressBook \<Rightarrow> error + (string \<times> string) list" where
  "get_upcoming_birthdays today self = upcoming_loop today (data_values self) []"

section \<open>Bot logic\<close>

text \<open>
  The decorator \<open>input_error\<close>: the three caught exceptions become the returned text,
  any other exception goes on. A handler takes the arguments and the book and gives its
  result with the book as it has become.
\<close>

definition input_error ::
  "('a \<Rightarrow> 'b \<Rightarrow> (error + string) \<times> 'b) \<Rightarrow> 'a \<Rightarrow> 'b \<Rightarrow> (error + string) \<times> 'b" where
  "input_error func args book =
     (case func args book of
        (Inr text, book') \<Rightarrow> (Inr text, book')
      | (Inl KeyError, book') \<Rightarrow> (Inr ''Enter user name.'', book')
      | (Inl (ValueError e), book') \<Rightarrow> (Inr e, book')
      | (Inl IndexError, book') \<Rightarrow> (Inr ''Enter a command and necessary arguments.'', book')
      | (Inl e, book') \<Rightarrow> (Inl e, book'))"

text \<open>
  Unpacking \<open>a, b, *_ = args\<close> from too short a list raises this \<open>ValueError\<close>.
\<close>

definition unpack_error :: "nat \<Rightarrow> nat \<Rightarrow> error" where
  "unpack_error expected got =
     ValueError (''not enough values to unpack (expected at least '' @ str_nat expected @
                 '', got '' @ str_nat got @ '')'')"

text \<open>\<open>str.isspace\<close>, \<open>str.split()\<close>, \<open>str.strip()\<close> and \<open>str.lower()\<close> below code point 256.\<close>

definition is_space :: "char \<Rightarrow> bool" where
  "is_space c =
     (let n = (of_char c :: nat)
      in (9 \<le> n \<and> n \<le> 13) \<or> (28 \<le> n \<and> n \<le> 32) \<or> n = 133 \<or> n = 160)"

fun split_loop :: "string \<Rightarrow> string \<Rightarrow> string list" where
  "split_loop [] word = (if word = [] then [] else [word])"
| "split_loop (c # cs) word =
     (if is_space c then (if word = [] then split_loop cs [] else word # split_loop cs [])
      else split_loop cs (word @ [c]))"

definition split :: "string \<Rightarrow> string list" where
  "split s = split_loop s []"

definition strip :: "string \<Rightarrow> string" where
  "strip s = rev (dropWhile is_space (rev (dropWhile is_space s)))"

definition lower_char :: "char \<Rightarrow> char" where
  "lower_char c =
     (let n = (of_char c :: nat)
      in if (65 \<le> n \<and> n \<le> 90) \<or> (192 \<le> n \<and> n \<le> 222 \<and> n \<noteq> 215)
         then char_of (n + 32) else c)"

definition lower :: "string \<Rightarrow> string" where
  "lower s = map lower_char s"

definition parse_input :: "string \<Rightarrow> error + string \<times> string list" where
  "parse_input user_input =
     (case split user_input of
        [] \<Rightarrow> Inl (unpack_error 1 0)
      | cmd # args \<Rightarrow> Inr (lower (strip cmd), args))"

subsection \<open>The handlers\<close>

definition add_contact_body :: "string list \<Rightarrow> AddressBook \<Rightarrow> (error + string) \<times> AddressBook" where
  "add_contact_body args book =
     (case args of
        n # phone # rest \<Rightarrow>
          (let (record, book1, message) =
                 (case find book n of
                    None \<Rightarrow> (Record_init n, add_record book (Record_init n), ''Contact added.'')
                  | Some r \<Rightarrow> (r, book, ''Contact updated.''))
           in if phone \<noteq> []
              then (case add_phone_t2 record phone of
                      (Inl e, record') \<Rightarrow> (Inl e, AList.update n record' book1)
                    | (Inr u, record') \<Rightarrow> (Inr message, AList.update n record' book1))
              else (Inr message, book1))
      | _ \<Rightarrow> (Inl (unpack_error 2 (length args)), book))"

definition add_contact :: "string list \<Rightarrow> AddressBook \<Rightarrow> (error + string) \<times> AddressBook" where
  "add_contact = input_error add_contact_body"

definition change_contact_body :: "string list \<Rightarrow> AddressBook \<Rightarrow> (error + string) \<times> AddressBook" where
  "change_contact_body args book =
     (case args of
        n # old_phone # new_phone # rest \<Rightarrow>
          (case find book n of
             None \<Rightarrow> (Inr ''Contact not found.'', book)
           | Some record \<Rightarrow>
               (case edit_phone_t2 record old_phone new_phone of
                  (Inl e, record') \<Rightarrow> (Inl e, AList.update n record' book)
                | (Inr u, record') \<Rightarrow>
                    (Inr (''Phone number updated for '' @ n @ ''.''),
                     AList.update n record' book)))
      | _ \<Rightarrow> (Inl (unpack_error 3 (length args)), book))"

definition change_contact :: "string list \<Rightarrow> AddressBook \<Rightarrow> (error + string) \<times> AddressBook" where
  "change_contact = input_error change_contact_body"

definition show_phone_body :: "string list \<Rightarrow> AddressBook \<Rightarrow> (error + string) \<times> AddressBook" where
  "show_phone_body args book =
     (case args of
        n # rest \<Rightarrow>
          (case find book n of
             None \<Rightarrow> (Inr ''Contact not found.'', book)
           | Some record \<Rightarrow>
               if phones record \<noteq> []
               then (Inr (n @ '': '' @ join ''; '' (phones record)), book)
               else (Inr (n @ '' has no phone numbers.''), book))
      | _ \<Rightarrow> (Inl (unpack_error 1 (length args)), book))"

definition show_phone :: "string list \<Rightarrow> AddressBook \<Rightarrow> (error + string) \<times> AddressBook" where
  "show_phone = input_error show_phone_body"

definition show_all :: "AddressBook \<Rightarrow> string" where
  "show_all book =
     (if book = [] then ''No contacts available.''
      else join [CHR 0x0A] (map Record_str (data_values book)))"

definition add_birthday_body :: "string list \<Rightarrow> AddressBook \<Rightarrow> (error + string) \<times> AddressBook" where
  "add_birthday_body args book =
     (case args of
        n # birthday_str # rest \<Rightarrow>
          (case find book n of
             None \<Rightarrow> (Inr (''Contact '' @ n @ '' not found. Add the contact first.''), book)
           | Some record \<Rightarrow>
               (case Record_add_birthday record birthday_str of
                  (Inl e, record') \<Rightarrow> (Inl e, AList.update n record' book)
                | (Inr u, record') \<Rightarrow>
                    (Inr (''Birthday added for '' @ n @ ''.''), AList.update n record' book)))
      | _ \<Rightarrow> (Inl (unpack_error 2 (length args)), book))"

definition add_birthday :: "string list \<Rightarrow> AddressBook \<Rightarrow> (error + string) \<times> AddressBook" where
  "add_birthday = input_error add_birthday_body"

definition show_birthday_body :: "string list \<Rightarrow> AddressBook \<Rightarrow> (error + string) \<times> AddressBook" where
  "show_birthday_body args book =
     (case args of
        n # rest \<Rightarrow>
          (case find book n of
             None \<Rightarrow> (Inr (''Contact '' @ n @ '' not found.''), book)
           | Some record \<Rightarrow>
               (case birthday record of
                  Some b \<Rightarrow> (Inr (n @ [CHR 0x27] @ ''s birthday is '' @ value b), book)
                | None \<Rightarrow> (Inr (''No birthday set for '' @ n @ ''.''), book)))
      | _ \<Rightarrow> (Inl (unpack_error 1 (length args)), book))"

definition show_birthday :: "string list \<Rightarrow> AddressBook \<Rightarrow> (error + string) \<times> AddressBook" where
  "show_birthday = input_error show_birthday_body"

definition birthdays_body ::
  "date \<Rightarrow> string list \<Rightarrow> AddressBook \<Rightarrow> (error + string) \<times> AddressBook" where
  "birthdays_body today args book =
     (case get_upcoming_birthdays today book of
        Inl e \<Rightarrow> (Inl e, book)
      | Inr upcoming \<Rightarrow>
          if upcoming = [] then (Inr ''No upcoming birthdays this week.'', book)
          else (Inr (join [CHR 0x0A]
                       (map (\<lambda>(n, congratulation_date).
                               n @ '' should be congratulated on '' @ congratulation_date)
                            upcoming)),
                book))"

definition birthdays :: "date \<Rightarrow> string list \<Rightarrow> AddressBook \<Rightarrow> (error + string) \<times> AddressBook" where
  "birthdays today = input_error (birthdays_body today)"

subsection \<open>The command loop\<close>

text \<open>
  \<open>main\<close> reads lines until a command of the exit set. The console is the list of the
  lines still to be read, each with the value \<open>date.today()\<close> has while its command runs;
  \<open>input\<close> on an exhausted console raises \<open>EOFError\<close>. The loop gives how it ended, the
  texts handed to \<open>print\<close>, and the book.
\<close>

datatype outcome = Exited | Raised error

definition invalid_command :: string where
  "invalid_command = ''Invalid command. Choose from: hello, add, change, phone, all, add-birthday, show-birthday, birthdays, close, exit.''"

text \<open>The chain of \<open>elif\<close>s on a command that is not of the exit set.\<close>

definition dispatch ::
  "date \<Rightarrow> string \<Rightarrow> string list \<Rightarrow> AddressBook \<Rightarrow> (error + string) \<times> AddressBook" where
  "dispatch today command args book =
     (if command = ''hello'' then (Inr ''How can I help you?'', book)
      else if command = ''add'' then add_contact args book
      else if command = ''change'' then change_contact args book
      else if command = ''phone'' then show_phone args book
      else if command = ''all'' then (Inr (show_all book), book)
      else if command = ''add-birthday'' then add_birthday args book
      else if command = ''show-birthday'' then show_birthday args book
      else if command = ''birthdays'' then birthdays today args book
      else (Inr invalid_command, book))"

fun main_loop ::
  "(date \<times> string) list \<Rightarrow> AddressBook \<Rightarrow> string list \<Rightarrow> outcome \<times> string list \<times> AddressBook" where
  "main_loop [] book printed = (Raised EOFError, printed, book)"
| "main_loop ((today, user_input) # console) book printed =
     (if user_input = [] then main_loop console book (printed @ [''Please enter a command.''])
      else
        (case parse_input user_input of
           Inl e \<Rightarrow> (Raised e, printed, book)
         | Inr (command, args) \<Rightarrow>
             if command \<in> set [''close'', ''exit''] then (Exited, printed @ [''Good bye!''], book)
             else
               (case dispatch today command args book of
                  (Inl e, book') \<Rightarrow> (Raised e, printed, book')
                | (Inr text, book') \<Rightarrow> main_loop console book' (printed @ [text]))))"

definition main :: "(date \<times> string) list \<Rightarrow> outcome \<times> string list \<times> AddressBook" where
  "main console = main_loop console [] [''Welcome to the assistant bot!'']"

text \<open>
  The records reachable from a fresh one by the three phone operations, for each file;
  a step is taken whether the operation returns or raises.
\<close>

inductive reachable_t1 :: "Record \<Rightarrow> bool" where
  fresh_t1: "reachable_t1 (Record_init n)"
| add_t1: "reachable_t1 r \<Longrightarrow> reachable_t1 (snd (add_phone_t1 r p))"
| remove_t1: "reachable_t1 r \<Longrightarrow> reachable_t1 (snd (remove_phone r p))"
| edit_t1: "reachable_t1 r \<Longrightarrow> reachable_t1 (snd (edit_phone_t1 r old new))"

inductive reachable_t2 :: "Record \<Rightarrow> bool" where
  fresh_t2: "reachable_t2 (Record_init n)"
| add_t2: "reachable_t2 r \<Longrightarrow> reachable_t2 (snd (add_phone_t2 r p))"
| remove_t2: "reachable_t2 r \<Longrightarrow> reachable_t2 (snd (remove_phone r p))"
| edit_t2: "reachable_t2 r \<Longrightarrow> reachable_t2 (snd (edit_phone_t2 r old new))"

section \<open>Notions of the specification\<close>

text \<open>The dates that exist: what a \<open>datetime.date\<close> object can hold.\<close>

definition valid_date :: "date \<Rightarrow> bool" where
  "valid_date d =
     (1 \<le> year d \<and> year d \<le> 9999 \<and> 1 \<le> month d \<and> month d \<le> 12 \<and>
      1 \<le> day d \<and> day d \<le> days_in_month (year d) (month d))"

text \<open>
  The occurrence of a birthday in a year is its month and day in that year; the next
  occurrence is the one of today's year, rolled to the next year if it is strictly
  before today. The occurrences exist when the dates so named do.
\<close>

definition occurrence :: "int \<Rightarrow> date \<Rightarrow> date" where
  "occurrence y b = \<lparr>year = y, month = month b, day = day b\<rparr>"

definition next_occurrence :: "date \<Rightarrow> date \<Rightarrow> date" where
  "next_occurrence today b =
     (if date_less (occurrence (year today) b) today then occurrence (year today + 1) b
      else occurrence (year today) b)"

definition occurrences_exist :: "date \<Rightarrow> date \<Rightarrow> bool" where
  "occurrences_exist today b =
     (valid_date (occurrence (year today) b) \<and> valid_date (next_occurrence today b))"

text \<open>The inclusive window of seven days from today, counted in days.\<close>

definition within_window :: "date \<Rightarrow> date \<Rightarrow> bool" where
  "within_window today d =
     (toordinal today \<le> toordinal d \<and> toordinal d \<le> toordinal today + 7)"

definition qualifies :: "date \<Rightarrow> Record \<Rightarrow> bool" where
  "qualifies today r =
     (case birthday r of
        None \<Rightarrow> False
      | Some b \<Rightarrow> within_window today (next_occurrence today (date b)))"

text \<open>
  \<open>days_after d k c\<close>: the date \<open>c\<close> is the one \<open>k\<close> days after \<open>d\<close>. The
  congratulation date of an occurrence: two days after a Saturday, one day after a
  Sunday, the occurrence itself otherwise.
\<close>

definition days_after :: "date \<Rightarrow> int \<Rightarrow> date \<Rightarrow> bool" where
  "days_after d k c = (valid_date c \<and> toordinal c = toordinal d + k)"

definition congratulation_of :: "date \<Rightarrow> date \<Rightarrow> bool" where
  "congratulation_of occ c =
     (if weekday occ = 5 then days_after occ 2 c
      else if weekday occ = 6 then days_after occ 1 c
      else c = occ)"

text \<open>
  A text in the format DD.MM.YYYY: two digits, a dot, two digits, a dot, four digits;
  it denotes a real calendar date when the month is one of the twelve, the day one of
  the month in that year, and the year not 0000.
\<close>

definition digit_value :: "char \<Rightarrow> int" where
  "digit_value c = int (of_char c) - 48"

definition DD_MM_YYYY :: "string \<Rightarrow> (int \<times> int \<times> int) option" where
  "DD_MM_YYYY s =
     (case s of
        [d1, d2, p1, m1, m2, p2, y1, y2, y3, y4] \<Rightarrow>
          if list_all is_digit [d1, d2, m1, m2, y1, y2, y3, y4] \<and>
             p1 = CHR ''.'' \<and> p2 = CHR ''.''
          then Some (10 * digit_value d1 + digit_value d2,
                     10 * digit_value m1 + digit_value m2,
                     1000 * digit_value y1 + 100 * digit_value y2 +
                     10 * digit_value y3 + digit_value y4)
          else None
      | _ \<Rightarrow> None)"

definition month_length :: "int \<Rightarrow> int \<Rightarrow> int" where
  "month_length y m =
     (if m = 2 then (if y mod 4 = 0 \<and> (y mod 100 \<noteq> 0 \<or> y mod 400 = 0) then 29 else 28)
      else if m = 4 \<or> m = 6 \<or> m = 9 \<or> m = 11 then 30 else 31)"

definition real_calendar_date :: "string \<Rightarrow> bool" where
  "real_calendar_date s =
     (case DD_MM_YYYY s of
        None \<Rightarrow> False
      | Some (d, m, y) \<Rightarrow> 1 \<le> y \<and> 1 \<le> m \<and> m \<le> 12 \<and> 1 \<le> d \<and> d \<le> month_length y m)"

text \<open>A text of one line has no line feed. The handlers that \<open>input_error\<close> wraps.\<close>

definition one_line :: "string \<Rightarrow> bool" where
  "one_line s = (CHR 0x0A \<notin> set s)"

definition wrapped_handlers ::
  "date \<Rightarrow> (string list \<Rightarrow> AddressBook \<Rightarrow> (error + string) \<times> AddressBook) list" where
  "wrapped_handlers today =
     [add_contact_body, change_contact_body, show_phone_body, add_birthday_body,
      show_birthday_body, birthdays_body today]"

text \<open>
  The date the loop of \<open>get_upcoming_birthdays\<close> reports for an occurrence when its
  additions stay in range, and the pair it then appends for a record.
\<close>

definition congratulation_date :: "date \<Rightarrow> date" where
  "congratulation_date occ =
     (if weekday occ = 5 then fromordinal (toordinal occ + 2)
      else if weekday occ = 6 then fromordinal (toordinal occ + 1)
      else occ)"

definition emitted :: "date \<Rightarrow> Record \<Rightarrow> string \<times> string" where
  "emitted today r =
     (name r,
      case birthday r of
        None \<Rightarrow> []
      | Some b \<Rightarrow> strftime_dmY (congratulation_date (next_occurrence today (date b))))"

text \<open>
  Two books of examples: the four contacts of the example run at the end of
  \<open>task_01_address_book.py\<close>, read on Monday 2024-07-15, and a book with a birthday
  on February 29.
\<close>

definition scenario_today :: date where
  "scenario_today = \<lparr>year = 2024, month = 7, day = 15\<rparr>"

definition scenario_book :: AddressBook where
  "scenario_book =
     [(''Jane'', \<lparr>name = ''Jane'', phones = [],
         birthday = Some \<lparr>value = ''14.07.1995'', date = \<lparr>year = 1995, month = 7, day = 14\<rparr>\<rparr>\<rparr>),
      (''Mark'', \<lparr>name = ''Mark'', phones = [],
         birthday = Some \<lparr>value = ''19.07.1995'', date = \<lparr>year = 1995, month = 7, day = 19\<rparr>\<rparr>\<rparr>),
      (''John'', \<lparr>name = ''John'', phones = [],
         birthday = Some \<lparr>value = ''20.07.1990'', date = \<lparr>year = 1990, month = 7, day = 20\<rparr>\<rparr>\<rparr>),
      (''Sonia'', \<lparr>name = ''Sonia'', phones = [],
         birthday = Some \<lparr>value = ''22.07.1978'', date = \<lparr>year = 1978, month = 7, day = 22\<rparr>\<rparr>\<rparr>)]"

definition Ann :: Record where
  "Ann = \<lparr>name = ''Ann'', phones = [],
           birthday = Some \<lparr>value = ''29.02.2000'', date = \<lparr>year = 2000, month = 2, day = 29\<rparr>\<rparr>\<rparr>"

definition Bob :: Record where
  "Bob = \<lparr>name = ''Bob'', phones = [],
           birthday = Some \<lparr>value = ''15.07.1995'', date = \<lparr>year = 1995, month = 7, day = 15\<rparr>\<rparr>\<rparr>"

definition leap_day_book :: AddressBook where
  "leap_day_book = [(''Ann'', Ann), (''Bob'', Bob)]"

text \<open>The books all of whose stored phones are texts of ten digits.\<close>

definition phones_valid :: "AddressBook \<Rightarrow> bool" where
  "phones_valid book = list_all (\<lambda>(n, r). list_all is_valid (phones r)) book"

section \<open>Phones of a record\<close>

lemma find_phone_loop_None: "(find_phone_loop ps x = None) = (x \<notin> set ps)"
  by (induction ps) auto

lemma find_phone_loop_Some: "find_phone_loop ps x = Some y \<Longrightarrow> y = x \<and> x \<in> set ps"
  by (induction ps) (auto split: if_splits)

lemma find_phone_cases:
  "find_phone r x = (if x \<in> set (phones r) then Some x else None)"
proof (cases "find_phone_loop (phones r) x")
  case None
  then show ?thesis by (simp add: find_phone_def find_phone_loop_None)
next
  case (Some y)
  then show ?thesis using find_phone_loop_Some [OF Some] by (simp add: find_phone_def)
qed

lemma add_phone_t1_cases:
  "add_phone_t1 r p =
     (if is_valid p then (Inr (), r\<lparr>phones := phones r @ [p]\<rparr>)
      else (Inl (ValueError ''Phone number must be 10 digits.''), r))"
  by (simp add: add_phone_t1_def Phone_def)

lemma add_phone_t2_cases:
  "add_phone_t2 r p =
     (if p \<in> set (phones r) then (Inl (ValueError (''Phone '' @ p @ '' already exists.'')), r)
      else if is_valid p then (Inr (), r\<lparr>phones := phones r @ [p]\<rparr>)
      else (Inl (ValueError ''Phone number must be 10 digits.''), r))"
  by (simp add: add_phone_t2_def find_phone_cases Phone_def)

lemma remove_phone_cases:
  "remove_phone r p = (Inr (), r\<lparr>phones := remove1 p (phones r)\<rparr>)"
  by (simp add: remove_phone_def find_phone_cases remove1_idem)

lemma edit_phone_t1_cases:
  "edit_phone_t1 r old new =
     (if old \<in> set (phones r)
      then add_phone_t1 (r\<lparr>phones := remove1 old (phones r)\<rparr>) new
      else (Inr (), r))"
  by (simp add: edit_phone_t1_def find_phone_cases)

lemma edit_phone_t2_cases:
  "edit_phone_t2 r old new =
     (if old \<in> set (phones r)
      then (if new \<in> set (phones r)
            then (Inl (ValueError (''Phone '' @ new @ '' already exists.'')), r)
            else if is_valid new
            then (Inr (), r\<lparr>phones := remove1 old (phones r @ [new])\<rparr>)
            else (Inl (ValueError ''Phone number must be 10 digits.''), r))
      else (Inr (), r))"
  by (simp add: edit_phone_t2_def find_phone_cases add_phone_t2_cases)

text \<open>
  Claim C1, as the code has it. In \<open>task_01_address_book.py\<close>, \<open>add_phone\<close> appends
  every text of ten digits and raises the \<open>ValueError\<close> of the validation on every
  other text, whatever the record holds. In \<open>task_02_assistant_bot.py\<close> a number the
  record already holds is refused first, with the \<open>ValueError\<close> of a duplicate; a text
  of ten digits that the record does not hold is appended, and every other text raises
  the \<open>ValueError\<close> of the validation. A refused call leaves the record as it was.
\<close>

theorem add_phone_outcome:
  "add_phone_t1 r p =
     (if is_valid p then (Inr (), r\<lparr>phones := phones r @ [p]\<rparr>)
      else (Inl (ValueError ''Phone number must be 10 digits.''), r)) \<and>
   add_phone_t2 r p =
     (if p \<in> set (phones r) then (Inl (ValueError (''Phone '' @ p @ '' already exists.'')), r)
      else if is_valid p then (Inr (), r\<lparr>phones := phones r @ [p]\<rparr>)
      else (Inl (ValueError ''Phone number must be 10 digits.''), r))"
  by (simp only: add_phone_t1_cases add_phone_t2_cases simp_thms)

theorem add_phone_outcome_witness:
  "add_phone_t1 (Record_init ''Bob'') ''1234567890'' =
     (Inr (), \<lparr>name = ''Bob'', phones = [''1234567890''], birthday = None\<rparr>) \<and>
   add_phone_t2 (Record_init ''Bob'') ''12345'' =
     (Inl (ValueError ''Phone number must be 10 digits.''), Record_init ''Bob'')"
  using add_phone_outcome [of "Record_init ''Bob''" "''1234567890''"]
    add_phone_outcome [of "Record_init ''Bob''" "''12345''"]
  by (simp add: Record_init_def is_valid_def is_digit_def)

text \<open>
  Claim C1 as stated fails in \<open>task_02_assistant_bot.py\<close>: a text of ten digits is
  refused when the record already holds it.
\<close>

theorem add_phone_duplicate_counterexample:
  "is_valid ''1234567890'' \<and>
   add_phone_t2 \<lparr>name = ''Bob'', phones = [''1234567890''], birthday = None\<rparr> ''1234567890'' =
     (Inl (ValueError ''Phone 1234567890 already exists.''),
      \<lparr>name = ''Bob'', phones = [''1234567890''], birthday = None\<rparr>)"
  by (simp add: is_valid_def is_digit_def add_phone_t2_def find_phone_def)

lemma list_all_remove1: "list_all P xs \<Longrightarrow> list_all P (remove1 x xs)"
  using set_remove1_subset [of x xs] by (auto simp: list_all_iff)

lemma reachable_t1_valid: "reachable_t1 r \<Longrightarrow> list_all is_valid (phones r)"
proof (induction rule: reachable_t1.induct)
  case (fresh_t1 n)
  then show ?case by (simp add: Record_init_def)
next
  case (add_t1 r p)
  then show ?case by (simp add: add_phone_t1_cases)
next
  case (remove_t1 r p)
  then show ?case by (simp add: remove_phone_cases list_all_remove1)
next
  case (edit_t1 r old new)
  then show ?case by (simp add: edit_phone_t1_cases add_phone_t1_cases list_all_remove1)
qed

lemma reachable_t2_valid: "reachable_t2 r \<Longrightarrow> list_all is_valid (phones r)"
proof (induction rule: reachable_t2.induct)
  case (fresh_t2 n)
  then show ?case by (simp add: Record_init_def)
next
  case (add_t2 r p)
  then show ?case by (simp add: add_phone_t2_cases)
next
  case (remove_t2 r p)
  then show ?case by (simp add: remove_phone_cases list_all_remove1)
next
  case (edit_t2 r old new)
  then show ?case by (simp add: edit_phone_t2_cases list_all_remove1)
qed

text \<open>
  Claim C4. In both files, every phone of a record reachable from a fresh \<open>Record\<close> by
  \<open>add_phone\<close>, \<open>remove_phone\<close> and \<open>edit_phone\<close>, whether the calls return or raise, is
  a text of exactly ten digits (\<^const>\<open>is_valid\<close>, the full match of \<open>\d{10}\<close>).
\<close>

theorem stored_phones_valid:
  "(reachable_t1 r \<longrightarrow> (\<forall>p \<in> set (phones r). is_valid p)) \<and>
   (reachable_t2 r \<longrightarrow> (\<forall>p \<in> set (phones r). is_valid p))"
  using reachable_t1_valid [of r] reachable_t2_valid [of r] by (simp add: list_all_iff)

theorem stored_phones_valid_witness:
  "reachable_t1 (snd (edit_phone_t1 (snd (add_phone_t1 (Record_init ''Bob'') ''1234567890''))
                        ''1234567890'' ''0987654321'')) \<and>
   phones (snd (edit_phone_t1 (snd (add_phone_t1 (Record_init ''Bob'') ''1234567890''))
                  ''1234567890'' ''0987654321'')) = [''0987654321''] \<and>
   is_valid ''0987654321'' \<and>
   reachable_t2 (snd (add_phone_t2 (Record_init ''Bob'') ''1234567890'')) \<and>
   phones (snd (add_phone_t2 (Record_init ''Bob'') ''1234567890'')) = [''1234567890''] \<and>
   is_valid ''1234567890''"
proof -
  let ?r1 = "snd (edit_phone_t1 (snd (add_phone_t1 (Record_init ''Bob'') ''1234567890''))
                    ''1234567890'' ''0987654321'')"
  let ?r2 = "snd (add_phone_t2 (Record_init ''Bob'') ''1234567890'')"
  have v: "is_valid ''1234567890''" "is_valid ''0987654321''"
    by (simp_all add: is_valid_def is_digit_def)
  have r1: "reachable_t1 ?r1" by (intro reachable_t1.intros)
  have r2: "reachable_t2 ?r2" by (intro reachable_t2.intros)
  have p1: "phones ?r1 = [''0987654321'']"
    using v by (simp add: edit_phone_t1_cases add_phone_t1_cases Record_init_def)
  have p2: "phones ?r2 = [''1234567890'']"
    using v by (simp add: add_phone_t2_cases Record_init_def)
  from stored_phones_valid [of ?r1] stored_phones_valid [of ?r2] r1 r2 p1 p2
  show ?thesis by simp
qed

text \<open>
  Claim C5. In both files, \<open>edit_phone(old, new)\<close> on a record that does not hold
  \<open>old\<close> returns without an error and leaves the record as it was, whatever \<open>new\<close> is.
\<close>

theorem edit_phone_absent_old:
  "old \<notin> set (phones r) \<Longrightarrow>
     edit_phone_t1 r old new = (Inr (), r) \<and> edit_phone_t2 r old new = (Inr (), r)"
  by (simp add: edit_phone_t1_cases edit_phone_t2_cases)

theorem edit_phone_absent_old_witness:
  "''0987654321'' \<notin> set (phones \<lparr>name = ''Bob'', phones = [''1234567890''], birthday = None\<rparr>) \<and>
   edit_phone_t1 \<lparr>name = ''Bob'', phones = [''1234567890''], birthday = None\<rparr>
       ''0987654321'' ''not a phone'' =
     (Inr (), \<lparr>name = ''Bob'', phones = [''1234567890''], birthday = None\<rparr>) \<and>
   edit_phone_t2 \<lparr>name = ''Bob'', phones = [''1234567890''], birthday = None\<rparr>
       ''0987654321'' ''not a phone'' =
     (Inr (), \<lparr>name = ''Bob'', phones = [''1234567890''], birthday = None\<rparr>)"
  using edit_phone_absent_old
    [of "''0987654321''" "\<lparr>name = ''Bob'', phones = [''1234567890''], birthday = None\<rparr>"
        "''not a phone''"]
  by simp

text \<open>
  The order of \<open>edit_phone\<close> in \<open>task_02_assistant_bot.py\<close>: the new phone is
  validated and appended before the old one is removed, so a refused new phone leaves
  the record as it was, and an accepted one takes the place at the end.
\<close>

lemma edit_phone_t2_present_old:
  assumes "old \<in> set (phones r)"
  shows "edit_phone_t2 r old new =
           (case add_phone_t2 r new of
              (Inl e, r') \<Rightarrow> (Inl e, r)
            | (Inr u, r') \<Rightarrow> (Inr (), r\<lparr>phones := remove1 old (phones r @ [new])\<rparr>))"
    and "\<not> is_valid new \<or> new \<in> set (phones r) \<Longrightarrow>
           \<exists>e. edit_phone_t2 r old new = (Inl e, r)"
  using assms by (auto simp: edit_phone_t2_cases add_phone_t2_cases)

text \<open>
  Claim C9 at a record of \<open>task_01_address_book.py\<close>: \<open>edit_phone\<close> removes the old
  phone before the new one is validated, so with a malformed new phone the call raises
  and the old phone is gone from the record.
\<close>

theorem edit_phone_t1_loses_old:
  "edit_phone_t1 \<lparr>name = ''Bob'', phones = [''1234567890''], birthday = None\<rparr>
       ''1234567890'' ''12ab'' =
     (Inl (ValueError ''Phone number must be 10 digits.''),
      \<lparr>name = ''Bob'', phones = [], birthday = None\<rparr>)"
  by (simp add: edit_phone_t1_def find_phone_def add_phone_t1_def Phone_def is_valid_def)

section \<open>Calendar arithmetic\<close>

text \<open>
  The ordinal of a date that exists lies between 1 and \<^const>\<open>MAXORDINAL\<close>, and
  \<^const>\<open>ord2ymd\<close> gives back, for every ordinal in this range, a date that exists and
  has this ordinal.
\<close>

lemma div_succ:
  fixes z d :: int
  assumes "0 < d"
  shows "(z + 1) div d = z div d + (if (z + 1) mod d = 0 then 1 else 0)"
proof -
  have r: "0 \<le> z mod d" "z mod d < d" using assms by simp_all
  have z: "d * (z div d) + z mod d = z" by simp
  show ?thesis
  proof (cases "z mod d + 1 = d")
    case True
    then have "z mod d = d - 1" by simp
    with z have "d * (z div d) + (d - 1) = z" by simp
    then have eq: "z + 1 = d * (z div d + 1) + 0" by (simp add: algebra_simps)
    have "(z + 1) div d = z div d + 1" using int_div_pos_eq [OF eq] assms by simp
    moreover have "(z + 1) mod d = 0" using int_mod_pos_eq [OF eq] assms by simp
    ultimately show ?thesis by simp
  next
    case False
    then have lt: "z mod d + 1 < d" using r by simp
    have ge: "0 \<le> z mod d + 1" using r by simp
    have eq: "z + 1 = d * (z div d) + (z mod d + 1)" by simp
    have "(z + 1) div d = z div d" using int_div_pos_eq [OF eq ge lt] .
    moreover have "(z + 1) mod d = z mod d + 1" using int_mod_pos_eq [OF eq ge lt] .
    ultimately show ?thesis using r by simp
  qed
qed

lemma m4: "(y::int) mod 400 = 0 \<Longrightarrow> y mod 100 = 0 \<and> y mod 4 = 0"
proof -
  assume "y mod 400 = 0"
  then have "400 dvd y" by (simp add: mod_eq_0_iff_dvd)
  moreover have "(100::int) dvd 400" "(4::int) dvd 400" by simp_all
  ultimately have "100 dvd y" "4 dvd y" using dvd_trans by blast+
  then show ?thesis by (simp add: mod_eq_0_iff_dvd)
qed

lemma m100: "(y::int) mod 100 = 0 \<Longrightarrow> y mod 4 = 0"
proof -
  assume "y mod 100 = 0"
  then have "100 dvd y" by (simp add: mod_eq_0_iff_dvd)
  moreover have "(4::int) dvd 100" by simp
  ultimately have "4 dvd y" using dvd_trans by blast
  then show ?thesis by (simp add: mod_eq_0_iff_dvd)
qed

lemma days_before_year_Suc:
  "days_before_year (y + 1) = days_before_year y + (if is_leap y then 366 else 365)"
proof -
  define p4 p100 p400 q4 q100 q400 where
    "p4 = y div 4" "p100 = y div 100" "p400 = y div 400"
    "q4 = (y - 1) div 4" "q100 = (y - 1) div 100" "q400 = (y - 1) div 400"
  note defs = this
  have a: "p4 = q4 + (if y mod 4 = 0 then 1 else 0)"
    unfolding defs using div_succ [of 4 "y - 1"] by simp
  have b: "p100 = q100 + (if y mod 100 = 0 then 1 else 0)"
    unfolding defs using div_succ [of 100 "y - 1"] by simp
  have c: "p400 = q400 + (if y mod 400 = 0 then 1 else 0)"
    unfolding defs using div_succ [of 400 "y - 1"] by simp
  have lhs: "days_before_year (y + 1) = y * 365 + p4 - p100 + p400"
    by (simp add: days_before_year_def defs)
  have rhs: "days_before_year y = (y - 1) * 365 + q4 - q100 + q400"
    by (simp add: days_before_year_def Let_def defs)
  have "y * 365 + p4 - p100 + p400 =
        (y - 1) * 365 + q4 - q100 + q400 + (if is_leap y then 366 else 365)"
  proof (cases "y mod 4 = 0")
    case False
    then have "y mod 100 \<noteq> 0" "y mod 400 \<noteq> 0" using m4 [of y] m100 [of y] by auto
    with False a b c show ?thesis by (simp add: is_leap_def)
  next
    case True
    show ?thesis
    proof (cases "y mod 100 = 0")
      case False
      then have "y mod 400 \<noteq> 0" using m4 [of y] by auto
      with False True a b c show ?thesis by (simp add: is_leap_def)
    next
      case c100: True
      show ?thesis
      proof (cases "y mod 400 = 0")
        case False
        with c100 True a b c show ?thesis by (simp add: is_leap_def)
      next
        case c400: True
        with c100 True a b c show ?thesis by (simp add: is_leap_def)
      qed
    qed
  qed
  then show ?thesis by (simp only: lhs rhs)
qed

lemma days_before_year_mono_nat: "days_before_year y \<le> days_before_year (y + int k)"
proof (induction k)
  case 0
  then show ?case by simp
next
  case (Suc k)
  have step: "days_before_year (y + int k) \<le> days_before_year (y + int k + 1)"
    by (simp add: days_before_year_Suc)
  have eq: "y + int (Suc k) = y + int k + 1" by simp
  show ?case unfolding eq using Suc step by (rule order_trans)
qed

lemma days_before_year_mono:
  assumes "y \<le> y'" shows "days_before_year y \<le> days_before_year y'"
proof -
  have "y' = y + int (nat (y' - y))" using assms by simp
  then show ?thesis using days_before_year_mono_nat [of y "nat (y' - y)"] by simp
qed

lemma days_before_year_1: "days_before_year 1 = 0"
  by (simp add: days_before_year_def)

lemma days_before_year_10000: "days_before_year 10000 = 3652059"
  by (simp add: days_before_year_def)

lemma month_cases:
  "1 \<le> (m::int) \<Longrightarrow> m \<le> 12 \<Longrightarrow>
   m = 1 \<or> m = 2 \<or> m = 3 \<or> m = 4 \<or> m = 5 \<or> m = 6 \<or> m = 7 \<or> m = 8 \<or> m = 9 \<or> m = 10 \<or> m = 11 \<or> m = 12"
proof -
  assume "1 \<le> m" "m \<le> 12"
  then have "m \<in> set [1..12]" by simp
  moreover have "[1..12] = [1, 2, 3, 4, 5, 6, 7, 8, 9, 10, 11, 12::int]"
    by code_simp
  ultimately have "m \<in> set [1, 2, 3, 4, 5, 6, 7, 8, 9, 10, 11, 12::int]" by simp
  then show ?thesis by simp
qed

lemma month_span:
  assumes "1 \<le> m" "m \<le> 12"
  shows "0 \<le> days_before_month y m \<and>
         days_before_month y m + days_in_month y m \<le> (if is_leap y then 366 else 365) \<and>
         28 \<le> days_in_month y m"
  using month_cases [OF assms]
  by (elim disjE) (simp_all add: days_before_month_def days_in_month_def
      DAYS_BEFORE_MONTH_def DAYS_IN_MONTH_def)

lemma toordinal_bounds:
  assumes "valid_date x"
  shows "1 \<le> toordinal x \<and> toordinal x \<le> MAXORDINAL"
proof -
  have y: "1 \<le> year x" "year x \<le> 9999" and m: "1 \<le> month x" "month x \<le> 12"
    and d: "1 \<le> day x" "day x \<le> days_in_month (year x) (month x)"
    using assms by (simp_all add: valid_date_def)
  have lo: "0 \<le> days_before_year (year x)"
    using days_before_year_mono [OF y(1)] by (simp add: days_before_year_1)
  have "days_before_year (year x + 1) \<le> days_before_year 10000"
    using y(2) by (intro days_before_year_mono) simp
  then have hi: "days_before_year (year x) + (if is_leap (year x) then 366 else 365) \<le> 3652059"
    by (simp only: days_before_year_Suc days_before_year_10000)
  show ?thesis
    using lo hi d month_span [OF m, of "year x"]
    by (simp add: toordinal_def ymd2ord_def MAXORDINAL_def split: if_splits)
qed

lemma year_cycles:
  fixes a b c e :: int
  assumes b: "0 \<le> b" "b \<le> 3" and c: "0 \<le> c" "c \<le> 24" and e: "0 \<le> e" "e \<le> 3"
  defines "y \<equiv> 400 * a + 100 * b + 4 * c + e + 1"
  shows "days_before_year y = 146097 * a + 36524 * b + 1461 * c + 365 * e"
    and "is_leap y = (e = 3 \<and> (c \<noteq> 24 \<or> b = 3))"
proof -
  define z where "z = y - 1"
  have z4: "z div 4 = 100 * a + 25 * b + c"
    by (rule int_div_pos_eq [where r = e]) (use e in \<open>simp_all add: z_def y_def\<close>)
  have z100: "z div 100 = 4 * a + b"
    by (rule int_div_pos_eq [where r = "4 * c + e"]) (use c e in \<open>simp_all add: z_def y_def\<close>)
  have z400: "z div 400 = a"
    by (rule int_div_pos_eq [where r = "100 * b + 4 * c + e"])
      (use b c e in \<open>simp_all add: z_def y_def\<close>)
  have "days_before_year y = z * 365 + z div 4 - z div 100 + z div 400"
    by (simp add: days_before_year_def Let_def z_def)
  also have "\<dots> = 146097 * a + 36524 * b + 1461 * c + 365 * e"
    unfolding z4 z100 z400 by (simp add: z_def y_def)
  finally show "days_before_year y = 146097 * a + 36524 * b + 1461 * c + 365 * e" .
  have y4: "y mod 4 = (if e = 3 then 0 else e + 1)"
  proof (cases "e = 3")
    case True
    have "y mod 4 = 0"
      by (rule int_mod_pos_eq [where q = "100 * a + 25 * b + c + 1"])
        (use True in \<open>simp_all add: y_def\<close>)
    with True show ?thesis by simp
  next
    case False
    have "y mod 4 = e + 1"
      by (rule int_mod_pos_eq [where q = "100 * a + 25 * b + c"])
        (use False e in \<open>simp_all add: y_def\<close>)
    with False show ?thesis by simp
  qed
  have y100: "y mod 100 = (if e = 3 \<and> c = 24 then 0 else 4 * c + e + 1)"
  proof (cases "e = 3 \<and> c = 24")
    case True
    have "y mod 100 = 0"
      by (rule int_mod_pos_eq [where q = "4 * a + b + 1"])
        (use True in \<open>simp_all add: y_def\<close>)
    with True show ?thesis by simp
  next
    case False
    have "4 * c + e + 1 < 100" using False c e by linarith
    then have "y mod 100 = 4 * c + e + 1"
      by (intro int_mod_pos_eq [where q = "4 * a + b"])
        (use c e in \<open>simp_all add: y_def\<close>)
    with False show ?thesis by simp
  qed
  have y400: "y mod 400 = (if e = 3 \<and> c = 24 \<and> b = 3 then 0 else 100 * b + 4 * c + e + 1)"
  proof (cases "e = 3 \<and> c = 24 \<and> b = 3")
    case True
    have "y mod 400 = 0"
      by (rule int_mod_pos_eq [where q = "a + 1"])
        (use True in \<open>simp_all add: y_def\<close>)
    with True show ?thesis by simp
  next
    case False
    have "100 * b + 4 * c + e + 1 < 400" using False b c e by linarith
    then have "y mod 400 = 100 * b + 4 * c + e + 1"
      by (intro int_mod_pos_eq [where q = a])
        (use b c e in \<open>simp_all add: y_def\<close>)
    with False show ?thesis by simp
  qed
  show "is_leap y = (e = 3 \<and> (c \<noteq> 24 \<or> b = 3))"
    unfolding is_leap_def y4 y100 y400 using b c e by auto
qed

lemma month_of_day:
  fixes r m :: int and L :: bool
  assumes r: "0 \<le> r" "r \<le> 364" and m: "32 * m \<le> r + 50" "r + 50 < 32 * m + 32"
  defines "preceding \<equiv> DAYS_BEFORE_MONTH ! nat m + (if m > 2 \<and> L then 1 else 0)"
  defines "mm \<equiv> (if preceding > r then m - 1 else m)"
  defines "dd \<equiv> (if preceding > r
                   then r - (preceding - (DAYS_IN_MONTH ! nat (m - 1) +
                                          (if m - 1 = 2 \<and> L then 1 else 0))) + 1
                   else r - preceding + 1)"
  shows "1 \<le> mm \<and> mm \<le> 12 \<and> 1 \<le> dd \<and>
         dd \<le> (if mm = 2 \<and> L then 29 else DAYS_IN_MONTH ! nat mm) \<and>
         DAYS_BEFORE_MONTH ! nat mm + (if mm > 2 \<and> L then 1 else 0) + dd = r + 1"
proof -
  have "1 \<le> m" "m \<le> 12" using r m by linarith+
  from month_cases [OF this] show ?thesis
  proof (elim disjE)
    assume "m = 1" with r m show ?thesis
      by (simp add: mm_def dd_def preceding_def DAYS_BEFORE_MONTH_def DAYS_IN_MONTH_def)
  next
    assume "m = 2" with r m show ?thesis
      by (simp add: mm_def dd_def preceding_def DAYS_BEFORE_MONTH_def DAYS_IN_MONTH_def)
  next
    assume "m = 3" with r m show ?thesis
      by (simp add: mm_def dd_def preceding_def DAYS_BEFORE_MONTH_def DAYS_IN_MONTH_def)
  next
    assume "m = 4" with r m show ?thesis
      by (simp add: mm_def dd_def preceding_def DAYS_BEFORE_MONTH_def DAYS_IN_MONTH_def)
  next
    assume "m = 5" with r m show ?thesis
      by (simp add: mm_def dd_def preceding_def DAYS_BEFORE_MONTH_def DAYS_IN_MONTH_def)
  next
    assume "m = 6" with r m show ?thesis
      by (simp add: mm_def dd_def preceding_def DAYS_BEFORE_MONTH_def DAYS_IN_MONTH_def)
  next
    assume "m = 7" with r m show ?thesis
      by (simp add: mm_def dd_def preceding_def DAYS_BEFORE_MONTH_def DAYS_IN_MONTH_def)
  next
    assume "m = 8" with r m show ?thesis
      by (simp add: mm_def dd_def preceding_def DAYS_BEFORE_MONTH_def DAYS_IN_MONTH_def)
  next
    assume "m = 9" with r m show ?thesis
      by (simp add: mm_def dd_def preceding_def DAYS_BEFORE_MONTH_def DAYS_IN_MONTH_def)
  next
    assume "m = 10" with r m show ?thesis
      by (simp add: mm_def dd_def preceding_def DAYS_BEFORE_MONTH_def DAYS_IN_MONTH_def)
  next
    assume "m = 11" with r m show ?thesis
      by (simp add: mm_def dd_def preceding_def DAYS_BEFORE_MONTH_def DAYS_IN_MONTH_def)
  next
    assume "m = 12" with r m show ?thesis
      by (simp add: mm_def dd_def preceding_def DAYS_BEFORE_MONTH_def DAYS_IN_MONTH_def)
  qed
qed

lemma year_below_10000:
  assumes "days_before_year y < 3652059" shows "y \<le> 9999"
proof (rule ccontr)
  assume "\<not> y \<le> 9999"
  then have "10000 \<le> y" by simp
  from days_before_year_mono [OF this] assms show False
    by (simp add: days_before_year_10000)
qed

lemma Dec31:
  assumes y: "1 \<le> y" and leap: "is_leap y" and n: "days_before_year y + 366 = n"
    and hi: "n \<le> 3652059"
  shows "valid_date \<lparr>year = y, month = 12, day = 31\<rparr> \<and>
         toordinal \<lparr>year = y, month = 12, day = 31\<rparr> = n"
proof -
  have "days_before_year y < 3652059" using n hi by linarith
  then have "y \<le> 9999" by (rule year_below_10000)
  then show ?thesis using y leap n
    by (simp add: valid_date_def toordinal_def ymd2ord_def days_in_month_def
        days_before_month_def DAYS_IN_MONTH_def DAYS_BEFORE_MONTH_def)
qed

lemma ord2ymd_correct:
  assumes lo: "1 \<le> n" and hi: "n \<le> 3652059"
  shows "valid_date (ord2ymd n) \<and> toordinal (ord2ymd n) = n"
proof -
  define n0 where "n0 = n - 1"
  define a where "a = n0 div 146097"
  define r1 where "r1 = n0 mod 146097"
  define b where "b = r1 div 36524"
  define r2 where "r2 = r1 mod 36524"
  define c where "c = r2 div 1461"
  define r3 where "r3 = r2 mod 1461"
  define e where "e = r3 div 365"
  define r4 where "r4 = r3 mod 365"
  define m where "m = (r4 + 50) div 32"
  define L where "L = (e = 3 \<and> (c \<noteq> 24 \<or> b = 3))"
  define preceding where
    "preceding = DAYS_BEFORE_MONTH ! nat m + (if m > 2 \<and> L then 1 else 0)"
  have form: "ord2ymd n =
     (if e = 4 \<or> b = 4
      then \<lparr>year = a * 400 + 1 + b * 100 + c * 4 + e - 1, month = 12, day = 31\<rparr>
      else if preceding > r4
           then \<lparr>year = a * 400 + 1 + b * 100 + c * 4 + e, month = m - 1,
                  day = r4 - (preceding -
                         (DAYS_IN_MONTH ! nat (m - 1) +
                          (if m - 1 = 2 \<and> L then 1 else 0))) + 1\<rparr>
           else \<lparr>year = a * 400 + 1 + b * 100 + c * 4 + e, month = m,
                  day = r4 - preceding + 1\<rparr>)"
    unfolding ord2ymd_def Let_def preceding_def L_def m_def r4_def e_def r3_def c_def
      r2_def b_def r1_def a_def n0_def
    by (rule refl)
  have d1: "n0 = 146097 * a + r1" "0 \<le> r1" "r1 < 146097"
    unfolding a_def r1_def by simp_all
  have d2: "r1 = 36524 * b + r2" "0 \<le> r2" "r2 < 36524"
    unfolding b_def r2_def by simp_all
  have d3: "r2 = 1461 * c + r3" "0 \<le> r3" "r3 < 1461"
    unfolding c_def r3_def by simp_all
  have d4: "r3 = 365 * e + r4" "0 \<le> r4" "r4 < 365"
    unfolding e_def r4_def by simp_all
  have dm: "32 * m \<le> r4 + 50" "r4 + 50 < 32 * m + 32"
  proof -
    have "r4 + 50 = 32 * m + (r4 + 50) mod 32" "0 \<le> (r4 + 50) mod 32" "(r4 + 50) mod 32 < 32"
      unfolding m_def by simp_all
    then show "32 * m \<le> r4 + 50" "r4 + 50 < 32 * m + 32" by linarith+
  qed
  have n0: "0 \<le> n0" "n0 \<le> 3652058" "n = n0 + 1" using lo hi by (simp_all add: n0_def)
  have a: "0 \<le> a" using d1 n0 by linarith
  have b: "0 \<le> b" "b \<le> 4" using d1 d2 by linarith+
  have c: "0 \<le> c" "c \<le> 24" using d2 d3 by linarith+
  have e: "0 \<le> e" "e \<le> 4" using d3 d4 by linarith+
  show ?thesis
  proof (cases "b = 4")
    case True
    have z: "r2 = 0" using True d1 d2 by linarith
    have "c = 0" using z d3 by linarith
    then have "r3 = 0" using z d3 by linarith
    then have "e = 0" using d4 by linarith
    then have "r4 = 0" using \<open>r3 = 0\<close> d4 by linarith
    have nn: "n = 146097 * a + 146097"
      using n0 d1 d2 True z by linarith
    have yy: "400 * a + 100 * 3 + 4 * 24 + 3 + 1 = a * 400 + 400" by simp
    have "days_before_year (400 * a + 100 * 3 + 4 * 24 + 3 + 1) =
            146097 * a + 36524 * 3 + 1461 * 24 + 365 * 3"
      and "is_leap (400 * a + 100 * 3 + 4 * 24 + 3 + 1) = (3 = (3::int) \<and> ((24::int) \<noteq> 24 \<or> 3 = (3::int)))"
      by (rule year_cycles; simp)+
    then have "days_before_year (a * 400 + 400) + 366 = n" "is_leap (a * 400 + 400)"
      unfolding yy using nn by simp_all
    moreover have "1 \<le> a * 400 + 400" using a by linarith
    ultimately have "valid_date \<lparr>year = a * 400 + 400, month = 12, day = 31\<rparr> \<and>
        toordinal \<lparr>year = a * 400 + 400, month = 12, day = 31\<rparr> = n"
      using hi by (intro Dec31) simp_all
    moreover have "ord2ymd n = \<lparr>year = a * 400 + 400, month = 12, day = 31\<rparr>"
      unfolding form using True \<open>c = 0\<close> \<open>e = 0\<close> by simp
    ultimately show ?thesis by simp
  next
    case False
    then have b3: "b \<le> 3" using b by linarith
    show ?thesis
    proof (cases "e = 4")
      case True
      have "r4 = 0" using True d3 d4 by linarith
      have c23: "c \<le> 23" using True d2 d3 d4 by linarith
      have nn: "n = 146097 * a + 36524 * b + 1461 * c + 1461"
        using n0 d1 d2 d3 d4 True \<open>r4 = 0\<close> by linarith
      have yy: "400 * a + 100 * b + 4 * c + 3 + 1 = a * 400 + 1 + b * 100 + c * 4 + 4 - 1"
        by simp
      have "days_before_year (400 * a + 100 * b + 4 * c + 3 + 1) =
              146097 * a + 36524 * b + 1461 * c + 365 * 3"
        and "is_leap (400 * a + 100 * b + 4 * c + 3 + 1) = (3 = (3::int) \<and> (c \<noteq> 24 \<or> b = 3))"
        using b b3 c by (intro year_cycles; simp)+
      then have "days_before_year (a * 400 + 1 + b * 100 + c * 4 + 4 - 1) + 366 = n"
        "is_leap (a * 400 + 1 + b * 100 + c * 4 + 4 - 1)"
        unfolding yy using nn c23 by simp_all
      moreover have "1 \<le> a * 400 + 1 + b * 100 + c * 4 + 4 - 1" using a b c by linarith
      ultimately have
        "valid_date \<lparr>year = a * 400 + 1 + b * 100 + c * 4 + 4 - 1, month = 12, day = 31\<rparr> \<and>
         toordinal \<lparr>year = a * 400 + 1 + b * 100 + c * 4 + 4 - 1, month = 12, day = 31\<rparr> = n"
        using hi by (intro Dec31) simp_all
      moreover have
        "ord2ymd n = \<lparr>year = a * 400 + 1 + b * 100 + c * 4 + 4 - 1, month = 12, day = 31\<rparr>"
        unfolding form using True by simp
      ultimately show ?thesis by simp
    next
      case e4: False
      then have e3: "e \<le> 3" using e by linarith
      define y where "y = a * 400 + 1 + b * 100 + c * 4 + e"
      have yy: "400 * a + 100 * b + 4 * c + e + 1 = y" by (simp add: y_def)
      have "days_before_year (400 * a + 100 * b + 4 * c + e + 1) =
              146097 * a + 36524 * b + 1461 * c + 365 * e"
        and "is_leap (400 * a + 100 * b + 4 * c + e + 1) = (e = 3 \<and> (c \<noteq> 24 \<or> b = 3))"
        using b b3 c e e3 by (intro year_cycles; simp)+
      then have dby: "days_before_year y = n0 - r4" and leap: "is_leap y = L"
        unfolding yy L_def using d1 d2 d3 d4 by simp_all
      have y1: "1 \<le> y" using a b c e by (simp add: y_def)
      have "days_before_year y < 3652059" using dby n0 d4 by linarith
      then have y9999: "y \<le> 9999" by (rule year_below_10000)
      define mm where "mm = (if preceding > r4 then m - 1 else m)"
      define dd where "dd = (if preceding > r4
                   then r4 - (preceding - (DAYS_IN_MONTH ! nat (m - 1) +
                                          (if m - 1 = 2 \<and> L then 1 else 0))) + 1
                   else r4 - preceding + 1)"
      have r4: "0 \<le> r4" "r4 \<le> 364" using d4 by linarith+
      have md: "1 \<le> mm \<and> mm \<le> 12 \<and> 1 \<le> dd \<and>
         dd \<le> (if mm = 2 \<and> L then 29 else DAYS_IN_MONTH ! nat mm) \<and>
         DAYS_BEFORE_MONTH ! nat mm + (if mm > 2 \<and> L then 1 else 0) + dd = r4 + 1"
        unfolding mm_def dd_def preceding_def by (rule month_of_day [OF r4 dm])
      have res: "ord2ymd n = \<lparr>year = y, month = mm, day = dd\<rparr>"
        unfolding form y_def mm_def dd_def using False e4 by simp
      have "valid_date \<lparr>year = y, month = mm, day = dd\<rparr>"
        using md y1 y9999 by (simp add: valid_date_def days_in_month_def leap)
      moreover have "toordinal \<lparr>year = y, month = mm, day = dd\<rparr> = n"
        using md dby n0 by (simp add: toordinal_def ymd2ord_def days_before_month_def leap)
      ultimately show ?thesis unfolding res by simp
    qed
  qed
qed

text \<open>
  The ordinal grows strictly with the order of the dates, so a date that exists is
  determined by its ordinal, and the date a number of days after another is unique.
\<close>

lemma days_before_month_Suc:
  assumes "1 \<le> m" "m \<le> 11"
  shows "days_before_month y (m + 1) = days_before_month y m + days_in_month y m"
proof -
  from assms have "1 \<le> m" "m \<le> 12" by simp_all
  from month_cases [OF this] assms(2) show ?thesis
    by (elim disjE)
      (simp_all add: days_before_month_def days_in_month_def DAYS_BEFORE_MONTH_def
        DAYS_IN_MONTH_def)
qed

lemma days_before_month_mono_nat:
  assumes "1 \<le> m" "m + int k \<le> 12"
  shows "days_before_month y m + (if k = 0 then 0 else days_in_month y m) \<le>
         days_before_month y (m + int k)"
  using assms(2)
proof (induction k)
  case 0
  then show ?case by simp
next
  case (Suc k)
  then have le: "m + int k \<le> 11" by simp
  have m1: "1 \<le> m + int k" using assms(1) by simp
  have step: "days_before_month y (m + int k + 1) =
      days_before_month y (m + int k) + days_in_month y (m + int k)"
    using m1 le by (rule days_before_month_Suc)
  have pos: "28 \<le> days_in_month y (m + int k)"
    using month_span [of "m + int k" y] m1 le by simp
  have IH: "days_before_month y m + (if k = 0 then 0 else days_in_month y m) \<le>
      days_before_month y (m + int k)"
    using Suc.IH le by simp
  have eq: "m + int (Suc k) = m + int k + 1" by simp
  show ?case unfolding eq step using IH pos by (cases "k = 0") simp_all
qed

lemma toordinal_less:
  assumes a: "valid_date a" and b: "valid_date b" and lt: "date_less a b"
  shows "toordinal a < toordinal b"
proof -
  have ya: "1 \<le> year a" "year a \<le> 9999" and ma: "1 \<le> month a" "month a \<le> 12"
    and da: "1 \<le> day a" "day a \<le> days_in_month (year a) (month a)"
    using a by (simp_all add: valid_date_def)
  have mb: "1 \<le> month b" "month b \<le> 12" and db: "1 \<le> day b"
    using b by (simp_all add: valid_date_def)
  note sa = month_span [OF ma, of "year a"]
  note sb = month_span [OF mb, of "year b"]
  consider (y) "year a < year b"
    | (m) "year a = year b" "month a < month b"
    | (d) "year a = year b" "month a = month b" "day a < day b"
    using lt by (auto simp: date_less_def)
  then show ?thesis
  proof cases
    case y
    then have "year a + 1 \<le> year b" by simp
    then have "days_before_year (year a + 1) \<le> days_before_year (year b)"
      by (rule days_before_year_mono)
    then have "days_before_year (year a) + (if is_leap (year a) then 366 else 365) \<le>
        days_before_year (year b)"
      by (simp only: days_before_year_Suc)
    with sa sb da db show ?thesis
      by (simp add: toordinal_def ymd2ord_def split: if_splits)
  next
    case m
    define k where "k = nat (month b - month a)"
    have k: "month b = month a + int k" "k \<noteq> 0" using m(2) by (simp_all add: k_def)
    from days_before_month_mono_nat [OF ma(1), of k "year a"] mb(2) k
    have "days_before_month (year a) (month a) + days_in_month (year a) (month a) \<le>
        days_before_month (year a) (month b)"
      by simp
    with da db m(1) show ?thesis by (simp add: toordinal_def ymd2ord_def)
  next
    case d
    then show ?thesis by (simp add: toordinal_def ymd2ord_def)
  qed
qed

lemma toordinal_inj:
  assumes "valid_date a" "valid_date b" "toordinal a = toordinal b"
  shows "a = b"
proof (rule ccontr)
  assume "a \<noteq> b"
  then have "date_less a b \<or> date_less b a"
    by (cases a; cases b) (auto simp: date_less_def)
  with toordinal_less [OF assms(1,2)] toordinal_less [OF assms(2,1)] assms(3)
  show False by auto
qed

lemma days_after_unique: "days_after d k c \<Longrightarrow> days_after d k c' \<Longrightarrow> c = c'"
  by (auto simp: days_after_def intro: toordinal_inj)

lemma fromordinal_toordinal:
  assumes "valid_date a" shows "fromordinal (toordinal a) = a"
proof -
  from toordinal_bounds [OF assms] have "1 \<le> toordinal a" "toordinal a \<le> 3652059"
    by (simp_all add: MAXORDINAL_def)
  from ord2ymd_correct [OF this] assms show ?thesis
    unfolding fromordinal_def by (intro toordinal_inj) simp_all
qed

section \<open>Upcoming birthdays\<close>

lemma date_new_cases:
  "date_new y m d =
     (if valid_date \<lparr>year = y, month = m, day = d\<rparr> then Inr \<lparr>year = y, month = m, day = d\<rparr>
      else Inl (ValueError
             (if \<not> (1 \<le> y \<and> y \<le> 9999) then ''year '' @ str_int y @ '' is out of range''
              else if \<not> (1 \<le> m \<and> m \<le> 12) then ''month must be in 1..12''
              else ''day is out of range for month'')))"
  by (simp add: date_new_def valid_date_def MINYEAR_def MAXYEAR_def)

lemma replace_year_cases:
  "replace_year b y =
     (if valid_date (occurrence y b) then Inr (occurrence y b)
      else Inl (ValueError
             (if \<not> (1 \<le> y \<and> y \<le> 9999) then ''year '' @ str_int y @ '' is out of range''
              else if \<not> (1 \<le> month b \<and> month b \<le> 12) then ''month must be in 1..12''
              else ''day is out of range for month'')))"
  by (simp add: replace_year_def date_new_cases occurrence_def)

lemma occurrence_occurrence: "occurrence y' (occurrence y b) = occurrence y' b"
  by (simp add: occurrence_def)

lemma replace_year_occurrence:
  "replace_year (occurrence y b) y' = replace_year b y'"
  by (simp add: replace_year_def occurrence_def)

lemma weekend_in_range:
  assumes "valid_date x"
  shows "weekday x = 5 \<Longrightarrow> 0 < toordinal x + 2 \<and> toordinal x + 2 \<le> MAXORDINAL"
    and "weekday x = 6 \<Longrightarrow> 0 < toordinal x + 1 \<and> toordinal x + 1 \<le> MAXORDINAL"
proof -
  define t where "t = toordinal x"
  have t: "1 \<le> t" "t \<le> 3652059"
    using toordinal_bounds [OF assms] by (simp_all add: t_def MAXORDINAL_def)
  have w: "weekday x = (t + 6) mod 7" by (simp add: weekday_def t_def)
  have n1: "t = 3652059 \<Longrightarrow> (t + 6) mod 7 = 4" by simp
  have n2: "t = 3652058 \<Longrightarrow> (t + 6) mod 7 = 3" by simp
  show "weekday x = 5 \<Longrightarrow> 0 < toordinal x + 2 \<and> toordinal x + 2 \<le> MAXORDINAL"
    unfolding w t_def [symmetric] MAXORDINAL_def using t n1 n2
    by (cases "t = 3652059"; cases "t = 3652058") auto
  show "weekday x = 6 \<Longrightarrow> 0 < toordinal x + 1 \<and> toordinal x + 1 \<le> MAXORDINAL"
    unfolding w t_def [symmetric] MAXORDINAL_def using t n1
    by (cases "t = 3652059") auto
qed

lemma add_days_weekend:
  assumes "valid_date x"
  shows "weekday x = 5 \<Longrightarrow> add_days x 2 = Inr (fromordinal (toordinal x + 2))"
    and "weekday x = 6 \<Longrightarrow> add_days x 1 = Inr (fromordinal (toordinal x + 1))"
  using weekend_in_range [OF assms] by (simp_all add: add_days_def Let_def)

lemma congratulation_date_correct:
  assumes "valid_date occ"
  shows "congratulation_of occ (congratulation_date occ)"
proof -
  have "weekday occ = 5 \<Longrightarrow> days_after occ 2 (fromordinal (toordinal occ + 2))"
    using weekend_in_range(1) [OF assms] ord2ymd_correct [of "toordinal occ + 2"]
    by (simp add: days_after_def fromordinal_def MAXORDINAL_def)
  moreover have "weekday occ = 6 \<Longrightarrow> days_after occ 1 (fromordinal (toordinal occ + 1))"
    using weekend_in_range(2) [OF assms] ord2ymd_correct [of "toordinal occ + 1"]
    by (simp add: days_after_def fromordinal_def MAXORDINAL_def)
  ultimately show ?thesis
    by (simp add: congratulation_of_def congratulation_date_def)
qed

lemma upcoming_step_None:
  "birthday r = None \<Longrightarrow> upcoming_step today r acc = Inr acc"
  by (simp add: upcoming_step_def)

lemma upcoming_step_raise:
  assumes "birthday r = Some b" "\<not> occurrences_exist today (date b)"
  shows "\<exists>msg. upcoming_step today r acc = Inl (ValueError msg)"
  using assms
proof (cases "valid_date (occurrence (year today) (date b))")
  case False
  then show ?thesis using assms(1) by (simp add: upcoming_step_def replace_year_cases)
next
  case True
  with assms(2) have "date_less (occurrence (year today) (date b)) today"
    and "\<not> valid_date (occurrence (year today + 1) (date b))"
    by (auto simp: occurrences_exist_def next_occurrence_def split: if_splits)
  with True assms(1) show ?thesis
    by (simp add: upcoming_step_def replace_year_cases occurrence_occurrence)
qed

lemma upcoming_step_exist:
  assumes "birthday r = Some b" "occurrences_exist today (date b)"
  shows "upcoming_step today r acc =
           (if within_window today (next_occurrence today (date b))
            then Inr (acc @ [(name r,
                   strftime_dmY (congratulation_date (next_occurrence today (date b))))])
            else Inr acc)"
proof -
  let ?occ = "next_occurrence today (date b)"
  have v: "valid_date (occurrence (year today) (date b))" "valid_date ?occ"
    using assms(2) by (simp_all add: occurrences_exist_def)
  have roll: "(if date_less (occurrence (year today) (date b)) today
               then replace_year (occurrence (year today) (date b)) (year today + 1)
               else Inr (occurrence (year today) (date b))) = Inr ?occ"
    using v
    by (auto simp: next_occurrence_def replace_year_cases occurrence_occurrence
        split: if_splits)
  have shift: "(if weekday ?occ = 5 then add_days ?occ 2
                else if weekday ?occ = 6 then add_days ?occ 1
                else Inr ?occ) = Inr (congratulation_date ?occ)"
    using add_days_weekend [OF v(2)] by (simp add: congratulation_date_def)
  have win: "(0 \<le> days_between ?occ today \<and> days_between ?occ today \<le> 7) =
             within_window today ?occ"
    by (auto simp: days_between_def within_window_def)
  have first: "replace_year (date b) (year today) = Inr (occurrence (year today) (date b))"
    using v(1) by (simp add: replace_year_cases)
  show ?thesis
    by (simp only: upcoming_step_def assms(1) option.case first sum.case roll Let_def win
        shift)
qed

lemma upcoming_step_error:
  assumes "upcoming_step today r acc = Inl e"
  shows "\<exists>msg. e = ValueError msg"
proof (cases "birthday r")
  case None
  then show ?thesis using assms by (simp add: upcoming_step_None)
next
  case (Some b)
  show ?thesis
  proof (cases "occurrences_exist today (date b)")
    case True
    then show ?thesis using assms by (simp add: upcoming_step_exist [OF Some] split: if_splits)
  next
    case False
    from upcoming_step_raise [OF Some False, of acc] assms show ?thesis by auto
  qed
qed

lemma upcoming_loop_error:
  "upcoming_loop today rs acc = Inl e \<Longrightarrow> \<exists>msg. e = ValueError msg"
proof (induction rs arbitrary: acc)
  case Nil
  then show ?case by simp
next
  case (Cons r rs)
  show ?case
  proof (cases "upcoming_step today r acc")
    case (Inl e')
    with Cons.prems have "e' = e" by simp
    with Inl upcoming_step_error show ?thesis by blast
  next
    case (Inr acc')
    with Cons.prems have "upcoming_loop today rs acc' = Inl e" by simp
    then show ?thesis by (rule Cons.IH)
  qed
qed

lemma upcoming_loop_raise:
  assumes "r \<in> set rs" "birthday r = Some b" "\<not> occurrences_exist today (date b)"
  shows "\<exists>msg. upcoming_loop today rs acc = Inl (ValueError msg)"
  using assms(1)
proof (induction rs arbitrary: acc)
  case Nil
  then show ?case by simp
next
  case (Cons x rs)
  show ?case
  proof (cases "upcoming_step today x acc")
    case (Inl e)
    with upcoming_step_error obtain msg where "e = ValueError msg" by blast
    with Inl show ?thesis by simp
  next
    case (Inr acc')
    have "x \<noteq> r"
    proof
      assume "x = r"
      with upcoming_step_raise [OF assms(2,3), of acc] Inr show False by auto
    qed
    with Cons.prems have "r \<in> set rs" by simp
    from Cons.IH [OF this, of acc'] Inr show ?thesis by simp
  qed
qed

lemma upcoming_loop_exist:
  assumes "\<forall>r \<in> set rs. \<forall>b. birthday r = Some b \<longrightarrow> occurrences_exist today (date b)"
  shows "upcoming_loop today rs acc =
           Inr (acc @ map (emitted today) (filter (qualifies today) rs))"
  using assms
proof (induction rs arbitrary: acc)
  case Nil
  then show ?case by simp
next
  case (Cons r rs)
  then have rest: "\<And>acc'. upcoming_loop today rs acc' =
      Inr (acc' @ map (emitted today) (filter (qualifies today) rs))"
    by simp
  show ?case
  proof (cases "birthday r")
    case None
    then have "\<not> qualifies today r" by (simp add: qualifies_def)
    with None show ?thesis by (simp add: upcoming_step_None rest)
  next
    case (Some b)
    with Cons.prems have ex: "occurrences_exist today (date b)" by simp
    have q: "qualifies today r = within_window today (next_occurrence today (date b))"
      using Some by (simp add: qualifies_def)
    have em: "emitted today r =
      (name r, strftime_dmY (congratulation_date (next_occurrence today (date b))))"
      using Some by (simp add: emitted_def)
    show ?thesis by (simp add: upcoming_step_exist [OF Some ex] rest q [symmetric] em)
  qed
qed

lemma upcoming_loop_returns:
  assumes "upcoming_loop today rs acc = Inr out"
  shows "\<forall>r \<in> set rs. \<forall>b. birthday r = Some b \<longrightarrow> occurrences_exist today (date b)"
proof (intro ballI allI impI)
  fix r b assume "r \<in> set rs" "birthday r = Some b"
  show "occurrences_exist today (date b)"
  proof (rule ccontr)
    assume "\<not> occurrences_exist today (date b)"
    from upcoming_loop_raise [OF \<open>r \<in> set rs\<close> \<open>birthday r = Some b\<close> this, of acc] assms
    show False by simp
  qed
qed

lemma Feb29_no_occurrence:
  assumes "month b = 2" "day b = 29" "\<not> is_leap (year today)"
  shows "\<not> occurrences_exist today b"
  using assms
  by (simp add: occurrences_exist_def valid_date_def occurrence_def days_in_month_def
      DAYS_IN_MONTH_def)

text \<open>
  Claim C7. When today's year is not a leap year and the book holds a record whose
  birthday is a February 29, \<open>get_upcoming_birthdays\<close> returns no list: the replacement
  of the year fails and the call ends with a \<open>ValueError\<close>, for every book and every
  place of the record in it.
\<close>

theorem leap_day_birthday_raises:
  assumes "r \<in> set (data_values book)" "birthday r = Some b"
    and "month (date b) = 2" "day (date b) = 29" "\<not> is_leap (year today)"
  shows "\<exists>msg. get_upcoming_birthdays today book = Inl (ValueError msg)"
  unfolding get_upcoming_birthdays_def
  using assms(1,2) Feb29_no_occurrence [OF assms(3,4,5)] by (rule upcoming_loop_raise)

text \<open>
  The book of Ann, born on 29.02.2000, and Bob, read on 2023-07-15.
\<close>

theorem leap_day_birthday_raises_witness:
  "Ann \<in> set (data_values leap_day_book) \<and>
   birthday Ann = Some \<lparr>value = ''29.02.2000'', date = \<lparr>year = 2000, month = 2, day = 29\<rparr>\<rparr> \<and>
   \<not> is_leap (year \<lparr>year = 2023, month = 7, day = 15\<rparr>) \<and>
   (\<exists>msg. get_upcoming_birthdays \<lparr>year = 2023, month = 7, day = 15\<rparr> leap_day_book =
      Inl (ValueError msg))"
proof -
  have a: "Ann \<in> set (data_values leap_day_book)"
    by (simp add: leap_day_book_def data_values_def)
  have b: "birthday Ann =
      Some \<lparr>value = ''29.02.2000'', date = \<lparr>year = 2000, month = 2, day = 29\<rparr>\<rparr>"
    by (simp add: Ann_def)
  have l: "\<not> is_leap (year \<lparr>year = 2023, month = 7, day = 15\<rparr>)"
    by (simp add: is_leap_def)
  from leap_day_birthday_raises [OF a b _ _ l] a b l show ?thesis by simp
qed

text \<open>
  Claim C2, as the code has it. Whenever the occurrence of every birthday of the book
  exists, in today's year and, when it is rolled, in the next year,
  \<open>get_upcoming_birthdays\<close> returns a list, and the list has a pair for a record if and
  only if the record has a birthday whose next occurrence lies in the window from today
  to seven days later, both included: the names of the pairs are the names of these
  records, in the order of the book.
\<close>

theorem upcoming_birthdays_iff:
  assumes "\<forall>r \<in> set (data_values book). \<forall>b. birthday r = Some b \<longrightarrow>
             occurrences_exist today (date b)"
  shows "\<exists>out. get_upcoming_birthdays today book = Inr out \<and>
           map fst out = map name (filter (qualifies today) (data_values book))"
  using upcoming_loop_exist [OF assms, of "[]"]
  by (simp add: get_upcoming_birthdays_def emitted_def comp_def)

text \<open>
  The four contacts of the example run, read on Monday 2024-07-15: Jane's birthday has
  passed, the three others are in the window.
\<close>

theorem upcoming_birthdays_iff_witness:
  "list_all (\<lambda>r. list_all (\<lambda>b. occurrences_exist scenario_today (date b))
                    (case birthday r of None \<Rightarrow> [] | Some b \<Rightarrow> [b]))
     (data_values scenario_book) \<and>
   (\<exists>out. get_upcoming_birthdays scenario_today scenario_book = Inr out \<and>
      map fst out = [''Mark'', ''John'', ''Sonia''])"
proof -
  have e: "list_all (\<lambda>r. list_all (\<lambda>b. occurrences_exist scenario_today (date b))
                    (case birthday r of None \<Rightarrow> [] | Some b \<Rightarrow> [b]))
     (data_values scenario_book)"
    by code_simp
  then have h: "\<forall>r \<in> set (data_values scenario_book). \<forall>b. birthday r = Some b \<longrightarrow>
      occurrences_exist scenario_today (date b)"
    by (auto simp: list_all_iff)
  have f: "map name (filter (qualifies scenario_today) (data_values scenario_book)) =
             [''Mark'', ''John'', ''Sonia'']"
    by code_simp
  from upcoming_birthdays_iff [OF h] obtain out where
    "get_upcoming_birthdays scenario_today scenario_book = Inr out"
    "map fst out = map name (filter (qualifies scenario_today) (data_values scenario_book))"
    by blast
  with f e show ?thesis by (intro conjI exI [of _ out]) simp_all
qed

text \<open>
  Claim C2 as stated fails on a book with a birthday on February 29 read in a year that
  is not a leap year: Bob's birthday is today, and no pair is emitted for him, since the
  call raises at Ann's record.
\<close>

theorem upcoming_birthdays_leap_day_counterexample:
  "Bob \<in> set (data_values leap_day_book) \<and>
   qualifies \<lparr>year = 2023, month = 7, day = 15\<rparr> Bob \<and>
   get_upcoming_birthdays \<lparr>year = 2023, month = 7, day = 15\<rparr> leap_day_book =
     Inl (ValueError ''day is out of range for month'')"
proof (intro conjI)
  show "Bob \<in> set (data_values leap_day_book)"
    by (simp add: leap_day_book_def data_values_def)
  show "qualifies \<lparr>year = 2023, month = 7, day = 15\<rparr> Bob" by code_simp
  show "get_upcoming_birthdays \<lparr>year = 2023, month = 7, day = 15\<rparr> leap_day_book =
     Inl (ValueError ''day is out of range for month'')" by code_simp
qed

lemma emitted_congratulation:
  assumes "\<forall>r \<in> set rs. \<forall>b. birthday r = Some b \<longrightarrow> occurrences_exist today (date b)"
  shows "list_all2
           (\<lambda>r (n, s). n = name r \<and>
              (\<exists>b c. birthday r = Some b \<and>
                 congratulation_of (next_occurrence today (date b)) c \<and> s = strftime_dmY c))
           (filter (qualifies today) rs) (map (emitted today) (filter (qualifies today) rs))"
  using assms
proof (induction rs)
  case Nil
  then show ?case by simp
next
  case (Cons r rs)
  then have IH: "list_all2
           (\<lambda>r (n, s). n = name r \<and>
              (\<exists>b c. birthday r = Some b \<and>
                 congratulation_of (next_occurrence today (date b)) c \<and> s = strftime_dmY c))
           (filter (qualifies today) rs) (map (emitted today) (filter (qualifies today) rs))"
    by simp
  show ?case
  proof (cases "qualifies today r")
    case False
    then show ?thesis using IH by simp
  next
    case True
    then obtain b where b: "birthday r = Some b"
      by (auto simp: qualifies_def split: option.splits)
    with Cons.prems have "valid_date (next_occurrence today (date b))"
      by (simp add: occurrences_exist_def)
    from congratulation_date_correct [OF this]
    have c: "congratulation_of (next_occurrence today (date b))
               (congratulation_date (next_occurrence today (date b)))" .
    have em: "emitted today r =
      (name r, strftime_dmY (congratulation_date (next_occurrence today (date b))))"
      using b by (simp add: emitted_def)
    show ?thesis using True IH b c by (auto simp: em)
  qed
qed

text \<open>
  Claim C3. In a list that \<open>get_upcoming_birthdays\<close> returns, the pair of every
  qualifying record reports, in the format \<open>%d.%m.%Y\<close>, the congratulation date of the
  next occurrence of the record's birthday: the date two days after the occurrence when
  the occurrence is a Saturday, the date one day after it when it is a Sunday, and the
  occurrence itself on every other day of the week.
\<close>

theorem congratulation_date_shift:
  assumes "get_upcoming_birthdays today book = Inr out"
  shows "list_all2
           (\<lambda>r (n, s). n = name r \<and>
              (\<exists>b c. birthday r = Some b \<and>
                 congratulation_of (next_occurrence today (date b)) c \<and> s = strftime_dmY c))
           (filter (qualifies today) (data_values book)) out"
proof -
  have ex: "\<forall>r \<in> set (data_values book). \<forall>b. birthday r = Some b \<longrightarrow>
              occurrences_exist today (date b)"
    using assms unfolding get_upcoming_birthdays_def by (rule upcoming_loop_returns)
  from upcoming_loop_exist [OF ex, of "[]"] assms
  have "out = map (emitted today) (filter (qualifies today) (data_values book))"
    by (simp add: get_upcoming_birthdays_def)
  with emitted_congratulation [OF ex] show ?thesis by simp
qed

text \<open>
  In the example run John's occurrence, 2024-07-20, is a Saturday and is reported as
  22.07.2024.
\<close>

theorem congratulation_date_shift_witness:
  "get_upcoming_birthdays scenario_today scenario_book =
     Inr [(''Mark'', ''19.07.2024''), (''John'', ''22.07.2024''), (''Sonia'', ''22.07.2024'')] \<and>
   weekday \<lparr>year = 2024, month = 7, day = 20\<rparr> = 5 \<and>
   list_all2
     (\<lambda>r (n, s). n = name r \<and>
        (\<exists>b c. birthday r = Some b \<and>
           congratulation_of (next_occurrence scenario_today (date b)) c \<and> s = strftime_dmY c))
     (filter (qualifies scenario_today) (data_values scenario_book))
     [(''Mark'', ''19.07.2024''), (''John'', ''22.07.2024''), (''Sonia'', ''22.07.2024'')]"
proof -
  have h: "get_upcoming_birthdays scenario_today scenario_book =
     Inr [(''Mark'', ''19.07.2024''), (''John'', ''22.07.2024''), (''Sonia'', ''22.07.2024'')]"
    by code_simp
  have w: "weekday \<lparr>year = 2024, month = 7, day = 20\<rparr> = 5" by code_simp
  from h w congratulation_date_shift [OF h] show ?thesis by (intro conjI)
qed

section \<open>Parsing a birthday\<close>

lemma char_code_eq:
  "(c = CHR ''0'') = ((of_char c :: nat) = 48)"
  "(c = CHR ''1'') = ((of_char c :: nat) = 49)"
  "(c = CHR ''3'') = ((of_char c :: nat) = 51)"
  "(c = CHR '' '') = ((of_char c :: nat) = 32)"
  "(c = CHR ''.'') = ((of_char c :: nat) = 46)"
proof -
  have "(c = d) = ((of_char c :: nat) = of_char d)" for d by simp
  from this [of "CHR ''0''"] this [of "CHR ''1''"] this [of "CHR ''3''"] this [of "CHR '' ''"]
    this [of "CHR ''.''"]
  show "(c = CHR ''0'') = ((of_char c :: nat) = 48)"
    "(c = CHR ''1'') = ((of_char c :: nat) = 49)"
    "(c = CHR ''3'') = ((of_char c :: nat) = 51)"
    "(c = CHR '' '') = ((of_char c :: nat) = 32)"
    "(c = CHR ''.'') = ((of_char c :: nat) = 46)"
    by simp_all
qed

lemma in_range_code:
  "in_range CHR ''0'' CHR ''1'' c = (48 \<le> (of_char c :: nat) \<and> (of_char c :: nat) \<le> 49)"
  "in_range CHR ''0'' CHR ''2'' c = (48 \<le> (of_char c :: nat) \<and> (of_char c :: nat) \<le> 50)"
  "in_range CHR ''1'' CHR ''2'' c = (49 \<le> (of_char c :: nat) \<and> (of_char c :: nat) \<le> 50)"
  "in_range CHR ''1'' CHR ''9'' c = (49 \<le> (of_char c :: nat) \<and> (of_char c :: nat) \<le> 57)"
  by (simp_all add: in_range_def)

lemma re_d_two_digits:
  assumes "is_digit d1" "is_digit d2"
    and "1 \<le> 10 * digit_value d1 + digit_value d2" "10 * digit_value d1 + digit_value d2 \<le> 31"
  shows "re_d (d1 # d2 # rest) =
           ([d1, d2], rest) #
           (if in_range CHR ''1'' CHR ''9'' d1 then [([d1], d2 # rest)] else [])"
proof -
  define n1 n2 where "n1 = (of_char d1 :: nat)" "n2 = (of_char d2 :: nat)"
  note n = this
  have b: "48 \<le> n1" "n1 \<le> 57" "48 \<le> n2" "n2 \<le> 57"
    using assms(1,2) by (simp_all add: is_digit_def n)
  have v: "1 \<le> 10 * (int n1 - 48) + (int n2 - 48)" "10 * (int n1 - 48) + (int n2 - 48) \<le> 31"
    using assms(3,4) by (simp_all add: digit_value_def n)
  show ?thesis
    unfolding re_d_def re_two_def re_one_def list.case char_code_eq in_range_code is_digit_def
      n [symmetric]
    using b v by auto
qed

lemma re_m_two_digits:
  assumes "is_digit d1" "is_digit d2"
    and "1 \<le> 10 * digit_value d1 + digit_value d2" "10 * digit_value d1 + digit_value d2 \<le> 12"
  shows "re_m (d1 # d2 # rest) =
           ([d1, d2], rest) #
           (if in_range CHR ''1'' CHR ''9'' d1 then [([d1], d2 # rest)] else [])"
proof -
  define n1 n2 where "n1 = (of_char d1 :: nat)" "n2 = (of_char d2 :: nat)"
  note n = this
  have b: "48 \<le> n1" "n1 \<le> 57" "48 \<le> n2" "n2 \<le> 57"
    using assms(1,2) by (simp_all add: is_digit_def n)
  have v: "1 \<le> 10 * (int n1 - 48) + (int n2 - 48)" "10 * (int n1 - 48) + (int n2 - 48) \<le> 12"
    using assms(3,4) by (simp_all add: digit_value_def n)
  show ?thesis
    unfolding re_m_def re_two_def re_one_def list.case char_code_eq in_range_code is_digit_def
      n [symmetric]
    using b v by auto
qed

lemma re_dot_digit: "is_digit c \<Longrightarrow> re_dot (c # rest) = []"
  by (auto simp: re_dot_def is_digit_def char_code_eq)

lemma re_dot_dot: "re_dot (CHR ''.'' # rest) = [rest]"
  by (simp add: re_dot_def)

lemma py_int_digits:
  assumes "list_all is_digit ds"
  shows "py_int ds = foldl (\<lambda>acc c. 10 * acc + digit_value c) 0 ds"
proof -
  have "dropWhile (\<lambda>c. c = CHR '' '') ds = ds"
    using assms by (cases ds) (auto simp: is_digit_def char_code_eq)
  then show ?thesis by (simp add: py_int_def digit_value_def)
qed

lemma month_length_eq:
  "1 \<le> m \<Longrightarrow> m \<le> 12 \<Longrightarrow> month_length y m = days_in_month y m"
  by (drule (1) month_cases)
    (auto simp: month_length_def days_in_month_def is_leap_def DAYS_IN_MONTH_def)

lemma digit_value_range: "is_digit c \<Longrightarrow> 0 \<le> digit_value c \<and> digit_value c \<le> 9"
  by (auto simp: is_digit_def digit_value_def)

lemma DD_MM_YYYY_Some:
  assumes "DD_MM_YYYY s = Some (d, m, y)"
  shows "\<exists>d1 d2 m1 m2 y1 y2 y3 y4.
           s = [d1, d2, CHR ''.'', m1, m2, CHR ''.'', y1, y2, y3, y4] \<and>
           list_all is_digit [d1, d2, m1, m2, y1, y2, y3, y4] \<and>
           d = 10 * digit_value d1 + digit_value d2 \<and>
           m = 10 * digit_value m1 + digit_value m2 \<and>
           y = 1000 * digit_value y1 + 100 * digit_value y2 + 10 * digit_value y3 +
               digit_value y4"
  using assms unfolding DD_MM_YYYY_def
  by (auto split: list.splits if_splits)

lemma strptime_real_date:
  assumes "real_calendar_date s"
  shows "\<exists>d m y. DD_MM_YYYY s = Some (d, m, y) \<and>
           strptime_dmY s = Inr \<lparr>year = y, month = m, day = d\<rparr> \<and>
           valid_date \<lparr>year = y, month = m, day = d\<rparr>"
proof -
  from assms obtain d m y where some: "DD_MM_YYYY s = Some (d, m, y)"
    and r: "1 \<le> y" "1 \<le> m" "m \<le> 12" "1 \<le> d" "d \<le> month_length y m"
    by (auto simp: real_calendar_date_def split: option.splits)
  from DD_MM_YYYY_Some [OF some] obtain d1 d2 m1 m2 y1 y2 y3 y4 where
    s: "s = [d1, d2, CHR ''.'', m1, m2, CHR ''.'', y1, y2, y3, y4]"
    and dg: "is_digit d1" "is_digit d2" "is_digit m1" "is_digit m2"
      "is_digit y1" "is_digit y2" "is_digit y3" "is_digit y4"
    and d: "d = 10 * digit_value d1 + digit_value d2"
    and m: "m = 10 * digit_value m1 + digit_value m2"
    and y: "y = 1000 * digit_value y1 + 100 * digit_value y2 + 10 * digit_value y3 +
               digit_value y4"
    by auto
  have dim: "month_length y m = days_in_month y m" using r by (simp add: month_length_eq)
  have "month_length y m \<le> 31" by (simp add: month_length_def)
  with r have d31: "d \<le> 31" by linarith
  have y9999: "y \<le> 9999"
    using digit_value_range [OF dg(5)] digit_value_range [OF dg(6)]
      digit_value_range [OF dg(7)] digit_value_range [OF dg(8)]
    unfolding y by linarith
  have valid: "valid_date \<lparr>year = y, month = m, day = d\<rparr>"
    using r y9999 dim by (simp add: valid_date_def)
  have day: "re_d s = ([d1, d2], [CHR ''.'', m1, m2, CHR ''.'', y1, y2, y3, y4]) #
           (if in_range CHR ''1'' CHR ''9'' d1
            then [([d1], [d2, CHR ''.'', m1, m2, CHR ''.'', y1, y2, y3, y4])] else [])"
    unfolding s using r(4) d31 unfolding d by (intro re_d_two_digits dg) 
  have mon: "re_m [m1, m2, CHR ''.'', y1, y2, y3, y4] =
           ([m1, m2], [CHR ''.'', y1, y2, y3, y4]) #
           (if in_range CHR ''1'' CHR ''9'' m1 then [([m1], [m2, CHR ''.'', y1, y2, y3, y4])] else [])"
    using r(2,3) unfolding m by (intro re_m_two_digits dg)
  have yr: "re_Y [y1, y2, y3, y4] = [([y1, y2, y3, y4], [])]"
    using dg by (simp add: re_Y_def)
  have "format_regex_match s = [([d1, d2], [m1, m2], [y1, y2, y3, y4], [])]"
    unfolding format_regex_match_def day
    by (simp add: re_dot_dot re_dot_digit dg mon yr)
  moreover have "py_int [d1, d2] = d" "py_int [m1, m2] = m" "py_int [y1, y2, y3, y4] = y"
    using dg by (simp_all add: py_int_digits d m y)
  ultimately have "strptime_dmY s = date_new y m d"
    by (simp add: strptime_dmY_def)
  also have "\<dots> = Inr \<lparr>year = y, month = m, day = d\<rparr>"
    using valid by (simp add: date_new_def valid_date_def MINYEAR_def MAXYEAR_def)
  finally show ?thesis using some valid by simp
qed

section \<open>The handlers and the command loop\<close>

lemma find_update: "find (AList.update n r book) n = Some r"
  by (simp add: find_def update_conv')

lemma update_absent: "map_of al k = None \<Longrightarrow> AList.update k v al = al @ [(k, v)]"
  by (induction al) (auto split: if_splits)

lemma update_same: "map_of al k = Some v \<Longrightarrow> AList.update k v al = al"
  by (induction al) (auto split: if_splits)

lemma Birthday_init_real_date:
  assumes "real_calendar_date text"
  shows "\<exists>d. Birthday_init text = Inr \<lparr>value = text, date = d\<rparr> \<and> valid_date d"
  using strptime_real_date [OF assms] by (auto simp: Birthday_init_def)

lemma one_line_append: "one_line (a @ b) = (one_line a \<and> one_line b)"
  by (auto simp: one_line_def)

lemma one_line_Cons: "one_line (c # s) = (c \<noteq> CHR 0x0A \<and> one_line s)"
  by (auto simp: one_line_def)

lemma one_line_Nil: "one_line []"
  by (simp add: one_line_def)

lemma digit_char_not_newline: "k < 10 \<Longrightarrow> char_of (48 + k :: nat) \<noteq> CHR 0x0A"
proof
  assume k: "k < 10" and "char_of (48 + k) = CHR 0x0A"
  then have "(of_char (char_of (48 + k)) :: nat) = of_char (CHR 0x0A)" by simp
  then have "(48 + k) mod 256 = 10" by simp
  with k show False by simp
qed

lemma one_line_str_nat: "one_line (str_nat n)"
proof (induction n rule: str_nat.induct)
  case (1 n)
  show ?case
  proof (cases "n < 10")
    case True
    then show ?thesis
      by (simp add: str_nat.simps [of n] one_line_Cons one_line_Nil digit_char_not_newline)
  next
    case False
    then have "one_line (str_nat (n div 10))" by (rule "1.IH")
    moreover have "char_of (48 + n mod 10) \<noteq> CHR 0x0A"
      by (rule digit_char_not_newline) simp
    ultimately show ?thesis using False
      by (simp add: str_nat.simps [of n] one_line_append one_line_Cons one_line_Nil)
  qed
qed

lemma one_line_str_int: "one_line (str_int i)"
  by (simp add: str_int_def one_line_Cons one_line_str_nat)

lemma one_line_unpack_error:
  "unpack_error k n = ValueError msg \<Longrightarrow> one_line msg"
  by (auto simp: unpack_error_def one_line_append one_line_Cons one_line_Nil one_line_str_nat)

lemma unpack_error_ValueError: "\<exists>msg. unpack_error k n = ValueError msg \<and> one_line msg"
  using one_line_unpack_error [of k n] by (simp add: unpack_error_def)

lemma is_valid_one_line: "is_valid p \<Longrightarrow> one_line p"
  by (auto simp: is_valid_def one_line_def list_all_iff is_digit_def)

lemma add_phone_t2_error:
  assumes "add_phone_t2 r p = (Inl e, r')"
  shows "\<exists>msg. e = ValueError msg \<and>
           (one_line p \<or> list_all is_valid (phones r) \<longrightarrow> one_line msg)"
proof (cases "p \<in> set (phones r)")
  case True
  then have "list_all is_valid (phones r) \<Longrightarrow> one_line p"
    by (auto simp: list_all_iff intro: is_valid_one_line)
  with True assms show ?thesis
    by (auto simp: add_phone_t2_cases one_line_append one_line_Cons one_line_Nil)
next
  case False
  with assms show ?thesis
    by (auto simp: add_phone_t2_cases one_line_Cons one_line_Nil split: if_splits)
qed

lemma edit_phone_t2_error:
  assumes "edit_phone_t2 r old new = (Inl e, r')"
  shows "\<exists>msg. e = ValueError msg \<and>
           (one_line new \<or> list_all is_valid (phones r) \<longrightarrow> one_line msg)"
proof -
  from assms obtain r'' where "add_phone_t2 r new = (Inl e, r'')"
    by (auto simp: edit_phone_t2_cases add_phone_t2_cases split: if_splits)
  then show ?thesis by (rule add_phone_t2_error)
qed

lemma find_phones_valid:
  assumes "find book n = Some r" "phones_valid book"
  shows "list_all is_valid (phones r)"
proof -
  from assms(1) have "(n, r) \<in> set book" by (simp add: find_def map_of_SomeD)
  with assms(2) show ?thesis by (auto simp: phones_valid_def list_all_iff)
qed

lemma date_new_error: "date_new y m d = Inl e \<Longrightarrow> \<exists>msg. e = ValueError msg \<and> one_line msg"
  by (auto simp: date_new_def one_line_append one_line_Cons one_line_Nil one_line_str_int
      split: if_splits)

lemma strptime_dmY_error: "strptime_dmY s = Inl e \<Longrightarrow> \<exists>msg. e = ValueError msg"
  using date_new_error
  by (fastforce simp: strptime_dmY_def split: list.splits prod.splits if_splits)

lemma Birthday_init_error:
  "Birthday_init s = Inl e \<Longrightarrow> e = ValueError ''Invalid date format. Use DD.MM.YYYY.''"
proof -
  assume a: "Birthday_init s = Inl e"
  show ?thesis
  proof (cases "strptime_dmY s")
    case (Inl e')
    with strptime_dmY_error obtain msg where "e' = ValueError msg" by blast
    with Inl a show ?thesis by (simp add: Birthday_init_def)
  next
    case (Inr d)
    with a show ?thesis by (simp add: Birthday_init_def)
  qed
qed

lemma Record_add_birthday_error:
  "Record_add_birthday r s = (Inl e, r') \<Longrightarrow> \<exists>msg. e = ValueError msg \<and> one_line msg"
proof -
  assume a: "Record_add_birthday r s = (Inl e, r')"
  show ?thesis
  proof (cases "Birthday_init s")
    case (Inl e')
    with Birthday_init_error have e': "e' = ValueError ''Invalid date format. Use DD.MM.YYYY.''"
      by blast
    have "one_line ''Invalid date format. Use DD.MM.YYYY.''"
      by (simp add: one_line_Cons one_line_Nil)
    moreover have "e = e'" using Inl a by (simp add: Record_add_birthday_def)
    ultimately show ?thesis using e' by blast
  next
    case (Inr b)
    with a show ?thesis by (simp add: Record_add_birthday_def)
  qed
qed

lemma upcoming_step_error_line:
  assumes "upcoming_step today r acc = Inl e"
  shows "\<exists>msg. e = ValueError msg \<and> one_line msg"
proof (cases "birthday r")
  case None
  then show ?thesis using assms by (simp add: upcoming_step_None)
next
  case (Some b)
  show ?thesis
  proof (cases "occurrences_exist today (date b)")
    case True
    then show ?thesis using assms by (simp add: upcoming_step_exist [OF Some] split: if_splits)
  next
    case False
    show ?thesis
    proof (cases "replace_year (date b) (year today)")
      case (Inl e')
      with assms Some have "e' = e" by (simp add: upcoming_step_def)
      with Inl date_new_error show ?thesis unfolding replace_year_def by blast
    next
      case (Inr this_year)
      then have v: "valid_date (occurrence (year today) (date b))"
        and ty: "this_year = occurrence (year today) (date b)"
        by (auto simp: replace_year_cases split: if_splits)
      with False have lt: "date_less this_year today"
        and nv: "\<not> valid_date (occurrence (year today + 1) (date b))"
        by (auto simp: occurrences_exist_def next_occurrence_def split: if_splits)
      then obtain e' where e': "replace_year this_year (year today + 1) = Inl e'"
        unfolding ty by (auto simp: replace_year_cases occurrence_occurrence)
      with assms Some Inr lt have "e' = e" by (simp add: upcoming_step_def)
      with e' date_new_error show ?thesis unfolding replace_year_def by blast
    qed
  qed
qed

lemma upcoming_loop_error_line:
  "upcoming_loop today rs acc = Inl e \<Longrightarrow> \<exists>msg. e = ValueError msg \<and> one_line msg"
proof (induction rs arbitrary: acc)
  case Nil
  then show ?case by simp
next
  case (Cons r rs)
  show ?case
  proof (cases "upcoming_step today r acc")
    case (Inl e')
    with Cons.prems have "e' = e" by simp
    with Inl upcoming_step_error_line show ?thesis by blast
  next
    case (Inr acc')
    with Cons.prems have "upcoming_loop today rs acc' = Inl e" by simp
    then show ?thesis by (rule Cons.IH)
  qed
qed

lemma add_contact_body_error:
  assumes "fst (add_contact_body args book) = Inl e"
  shows "\<exists>msg. e = ValueError msg \<and> (list_all one_line args \<or> phones_valid book \<longrightarrow> one_line msg)"
proof (cases "\<exists>n phone rest. args = n # phone # rest")
  case False
  then have "fst (add_contact_body args book) = Inl (unpack_error 2 (length args))"
    by (auto simp: add_contact_body_def split: list.splits)
  with assms have "e = unpack_error 2 (length args)" by simp
  with unpack_error_ValueError [of 2 "length args"] show ?thesis by auto
next
  case True
  then obtain n phone rest where a: "args = n # phone # rest" by blast
  from assms obtain rcd rcd' where "add_phone_t2 rcd phone = (Inl e, rcd')"
    and "phones_valid book \<Longrightarrow> list_all is_valid (phones rcd)"
    unfolding a
    by (auto simp: add_contact_body_def Record_init_def find_phones_valid
        split: option.splits if_splits prod.splits sum.splits)
  with add_phone_t2_error [OF this(1)] a show ?thesis by auto
qed

lemma change_contact_body_error:
  assumes "fst (change_contact_body args book) = Inl e"
  shows "\<exists>msg. e = ValueError msg \<and> (list_all one_line args \<or> phones_valid book \<longrightarrow> one_line msg)"
proof (cases "\<exists>n old_phone new_phone rest. args = n # old_phone # new_phone # rest")
  case False
  then have "fst (change_contact_body args book) = Inl (unpack_error 3 (length args))"
    by (auto simp: change_contact_body_def split: list.splits)
  with assms have "e = unpack_error 3 (length args)" by simp
  with unpack_error_ValueError [of 3 "length args"] show ?thesis by auto
next
  case True
  then obtain n old_phone new_phone rest where a: "args = n # old_phone # new_phone # rest"
    by blast
  from assms obtain rcd rcd' where "edit_phone_t2 rcd old_phone new_phone = (Inl e, rcd')"
    and "phones_valid book \<Longrightarrow> list_all is_valid (phones rcd)"
    unfolding a
    by (auto simp: change_contact_body_def find_phones_valid
        split: option.splits prod.splits sum.splits)
  with edit_phone_t2_error [OF this(1)] a show ?thesis by auto
qed

lemma show_phone_body_error:
  assumes "fst (show_phone_body args book) = Inl e"
  shows "\<exists>msg. e = ValueError msg \<and> (list_all one_line args \<or> phones_valid book \<longrightarrow> one_line msg)"
proof -
  from assms have "e = unpack_error 1 (length args)"
    by (auto simp: show_phone_body_def split: list.splits option.splits if_splits)
  with unpack_error_ValueError [of 1 "length args"] show ?thesis by auto
qed

lemma show_birthday_body_error:
  assumes "fst (show_birthday_body args book) = Inl e"
  shows "\<exists>msg. e = ValueError msg \<and> (list_all one_line args \<or> phones_valid book \<longrightarrow> one_line msg)"
proof -
  from assms have "e = unpack_error 1 (length args)"
    by (auto simp: show_birthday_body_def split: list.splits option.splits if_splits)
  with unpack_error_ValueError [of 1 "length args"] show ?thesis by auto
qed

lemma add_birthday_body_error:
  assumes "fst (add_birthday_body args book) = Inl e"
  shows "\<exists>msg. e = ValueError msg \<and> (list_all one_line args \<or> phones_valid book \<longrightarrow> one_line msg)"
proof (cases "\<exists>n birthday_str rest. args = n # birthday_str # rest")
  case False
  then have "fst (add_birthday_body args book) = Inl (unpack_error 2 (length args))"
    by (auto simp: add_birthday_body_def split: list.splits)
  with assms have "e = unpack_error 2 (length args)" by simp
  with unpack_error_ValueError [of 2 "length args"] show ?thesis by auto
next
  case True
  then obtain n birthday_str rest where a: "args = n # birthday_str # rest" by blast
  from assms obtain rcd rcd' where "Record_add_birthday rcd birthday_str = (Inl e, rcd')"
    unfolding a
    by (auto simp: add_birthday_body_def split: option.splits prod.splits sum.splits)
  from Record_add_birthday_error [OF this] show ?thesis by auto
qed

lemma birthdays_body_error:
  assumes "fst (birthdays_body today args book) = Inl e"
  shows "\<exists>msg. e = ValueError msg \<and> (list_all one_line args \<or> phones_valid book \<longrightarrow> one_line msg)"
proof -
  from assms have "upcoming_loop today (data_values book) [] = Inl e"
    by (auto simp: birthdays_body_def get_upcoming_birthdays_def split: sum.splits if_splits)
  from upcoming_loop_error_line [OF this] show ?thesis by auto
qed

lemma wrapped_handlers_error:
  assumes "func \<in> set (wrapped_handlers today)" "fst (func args book) = Inl e"
  shows "\<exists>msg. e = ValueError msg \<and> (list_all one_line args \<or> phones_valid book \<longrightarrow> one_line msg)"
  using assms add_contact_body_error change_contact_body_error show_phone_body_error
    add_birthday_body_error show_birthday_body_error birthdays_body_error
  unfolding wrapped_handlers_def by auto

lemma input_error_ValueError:
  assumes "fst (func args book) = Inl (ValueError msg)"
  shows "input_error func args book = (Inr msg, snd (func args book))"
  using assms by (cases "func args book") (simp add: input_error_def)

lemma input_error_Inr:
  assumes "fst (func args book) = Inr text"
  shows "input_error func args book = (Inr text, snd (func args book))"
  using assms by (cases "func args book") (simp add: input_error_def)

lemma wrapped_handlers_return:
  assumes "func \<in> set (wrapped_handlers today)"
  shows "\<exists>msg. input_error func args book = (Inr msg, snd (func args book))"
proof (cases "fst (func args book)")
  case (Inl e)
  from wrapped_handlers_error [OF assms Inl] obtain msg where "e = ValueError msg" by blast
  with Inl have "fst (func args book) = Inl (ValueError msg)" by simp
  then have "input_error func args book = (Inr msg, snd (func args book))"
    by (rule input_error_ValueError [of func args book msg])
  then show ?thesis by blast
next
  case (Inr msg)
  then have "input_error func args book = (Inr msg, snd (func args book))"
    by (rule input_error_Inr [of func args book msg])
  then show ?thesis by blast
qed

lemma if_cases: "P a \<Longrightarrow> P b \<Longrightarrow> P (if c then a else b)"
  by simp

lemma wrapped_handlers_member:
  "add_contact_body \<in> set (wrapped_handlers today)"
  "change_contact_body \<in> set (wrapped_handlers today)"
  "show_phone_body \<in> set (wrapped_handlers today)"
  "add_birthday_body \<in> set (wrapped_handlers today)"
  "show_birthday_body \<in> set (wrapped_handlers today)"
  "birthdays_body today \<in> set (wrapped_handlers today)"
  unfolding wrapped_handlers_def by (simp_all only: list.set insert_iff simp_thms)

lemma dispatch_returns: "\<exists>msg book'. dispatch today command args book = (Inr msg, book')"
proof -
  have a: "\<exists>msg book'. add_contact args book = (Inr msg, book')"
    unfolding add_contact_def
    using wrapped_handlers_return [OF wrapped_handlers_member(1)] by blast
  have b: "\<exists>msg book'. change_contact args book = (Inr msg, book')"
    unfolding change_contact_def
    using wrapped_handlers_return [OF wrapped_handlers_member(2)] by blast
  have c: "\<exists>msg book'. show_phone args book = (Inr msg, book')"
    unfolding show_phone_def
    using wrapped_handlers_return [OF wrapped_handlers_member(3)] by blast
  have d: "\<exists>msg book'. add_birthday args book = (Inr msg, book')"
    unfolding add_birthday_def
    using wrapped_handlers_return [OF wrapped_handlers_member(4)] by blast
  have e: "\<exists>msg book'. show_birthday args book = (Inr msg, book')"
    unfolding show_birthday_def
    using wrapped_handlers_return [OF wrapped_handlers_member(5)] by blast
  have f: "\<exists>msg book'. birthdays today args book = (Inr msg, book')"
    unfolding birthdays_def
    using wrapped_handlers_return [OF wrapped_handlers_member(6)] by blast
  define returns :: "(error + string) \<times> AddressBook \<Rightarrow> bool" where
    "returns v = (\<exists>msg book'. v = (Inr msg, book'))" for v
  have "returns (dispatch today command args book)"
    unfolding dispatch_def
    by (intro if_cases [where P = returns]) (use a b c d e f in \<open>simp_all add: returns_def\<close>)
  then show ?thesis by (simp add: returns_def)
qed

lemma main_loop_raised:
  assumes "main_loop console book printed = (Raised e, printed', book')"
  shows "e = EOFError \<or> (\<exists>(today, user_input) \<in> set console. parse_input user_input = Inl e)"
  using assms
proof (induction console book printed rule: main_loop.induct)
  case (1 book printed)
  then show ?case by simp
next
  case (2 today user_input console book printed)
  show ?case
  proof (cases "user_input = []")
    case True
    with "2.prems" have "main_loop console book (printed @ [''Please enter a command.'']) =
        (Raised e, printed', book')" by simp
    from "2.IH"(1) [OF True this] show ?thesis by auto
  next
    case False
    show ?thesis
    proof (cases "parse_input user_input")
      case (Inl e')
      with False "2.prems" have "e' = e" by simp
      with Inl show ?thesis by auto
    next
      case (Inr parsed)
      obtain command args where p: "parsed = (command, args)" by (cases parsed)
      show ?thesis
      proof (cases "command \<in> set [''close'', ''exit'']")
        case True
        with False Inr p "2.prems" show ?thesis by simp
      next
        case notexit: False
        from dispatch_returns [of today command args book] obtain msg book1
          where d: "dispatch today command args book = (Inr msg, book1)" by blast
        with False Inr p notexit "2.prems"
        have "main_loop console book1 (printed @ [msg]) = (Raised e, printed', book')"
          by simp
        from "2.IH"(2) [OF False Inr p [symmetric] notexit d [symmetric] refl this]
        show ?thesis by auto
      qed
    qed
  qed
qed

lemma phones_valid_update:
  "phones_valid book \<Longrightarrow> list_all is_valid (phones r) \<Longrightarrow> phones_valid (AList.update n r book)"
  unfolding phones_valid_def by (induction book) auto

lemma add_phone_t2_valid:
  "list_all is_valid (phones r) \<Longrightarrow> list_all is_valid (phones (snd (add_phone_t2 r p)))"
  by (simp add: add_phone_t2_cases)

lemma edit_phone_t2_valid:
  "list_all is_valid (phones r) \<Longrightarrow> list_all is_valid (phones (snd (edit_phone_t2 r old new)))"
  by (simp add: edit_phone_t2_cases list_all_remove1)

lemma Record_add_birthday_phones: "phones (snd (Record_add_birthday r s)) = phones r"
  by (simp add: Record_add_birthday_def split: sum.splits)

lemma add_contact_body_valid:
  assumes "phones_valid book" shows "phones_valid (snd (add_contact_body args book))"
proof (cases "\<exists>n phone rest. args = n # phone # rest")
  case False
  then have "snd (add_contact_body args book) = book"
    by (auto simp: add_contact_body_def split: list.splits)
  with assms show ?thesis by simp
next
  case True
  then obtain n phone rest where a: "args = n # phone # rest" by blast
  define rcd where "rcd = (case find book n of None \<Rightarrow> Record_init n | Some r \<Rightarrow> r)"
  define book1 where
    "book1 = (case find book n of None \<Rightarrow> add_record book (Record_init n) | Some r \<Rightarrow> book)"
  have r: "list_all is_valid (phones rcd)"
    using assms by (auto simp: rcd_def Record_init_def find_phones_valid split: option.splits)
  have b1: "phones_valid book1"
    using assms
    by (auto simp: book1_def add_record_def Record_init_def phones_valid_update
        split: option.splits)
  have "snd (add_contact_body args book) =
          (if phone \<noteq> [] then AList.update n (snd (add_phone_t2 rcd phone)) book1 else book1)"
    unfolding a
    by (auto simp: add_contact_body_def rcd_def book1_def
        split: option.splits prod.splits sum.splits)
  with b1 add_phone_t2_valid [OF r, of phone] show ?thesis
    by (simp add: phones_valid_update)
qed

lemma change_contact_body_valid:
  assumes "phones_valid book" shows "phones_valid (snd (change_contact_body args book))"
proof (cases "\<exists>n old_phone new_phone rest. args = n # old_phone # new_phone # rest")
  case False
  then have "snd (change_contact_body args book) = book"
    by (auto simp: change_contact_body_def split: list.splits)
  with assms show ?thesis by simp
next
  case True
  then obtain n old_phone new_phone rest where a: "args = n # old_phone # new_phone # rest"
    by blast
  show ?thesis
  proof (cases "find book n")
    case None
    with assms show ?thesis by (simp add: a change_contact_body_def)
  next
    case (Some r)
    have "snd (change_contact_body args book) =
            AList.update n (snd (edit_phone_t2 r old_phone new_phone)) book"
      by (auto simp: a change_contact_body_def Some split: prod.splits sum.splits)
    with assms edit_phone_t2_valid [OF find_phones_valid [OF Some assms]] show ?thesis
      by (simp add: phones_valid_update)
  qed
qed

lemma add_birthday_body_valid:
  assumes "phones_valid book" shows "phones_valid (snd (add_birthday_body args book))"
proof (cases "\<exists>n birthday_str rest. args = n # birthday_str # rest")
  case False
  then have "snd (add_birthday_body args book) = book"
    by (auto simp: add_birthday_body_def split: list.splits)
  with assms show ?thesis by simp
next
  case True
  then obtain n birthday_str rest where a: "args = n # birthday_str # rest" by blast
  show ?thesis
  proof (cases "find book n")
    case None
    with assms show ?thesis by (simp add: a add_birthday_body_def)
  next
    case (Some r)
    have "snd (add_birthday_body args book) =
            AList.update n (snd (Record_add_birthday r birthday_str)) book"
      by (auto simp: a add_birthday_body_def Some split: prod.splits sum.splits)
    with assms find_phones_valid [OF Some assms] show ?thesis
      by (simp add: phones_valid_update Record_add_birthday_phones)
  qed
qed

lemma show_phone_body_book: "snd (show_phone_body args book) = book"
  by (auto simp: show_phone_body_def split: list.splits option.splits)

lemma show_birthday_body_book: "snd (show_birthday_body args book) = book"
  by (auto simp: show_birthday_body_def split: list.splits option.splits)

lemma birthdays_body_book: "snd (birthdays_body today args book) = book"
  by (auto simp: birthdays_body_def split: sum.splits)

lemma input_error_book: "snd (input_error func args book) = snd (func args book)"
  by (cases "func args book")
    (auto simp: input_error_def split: sum.splits error.splits)

lemma dispatch_valid:
  assumes "phones_valid book"
  shows "phones_valid (snd (dispatch today command args book))"
  unfolding dispatch_def
  by (intro if_cases [where P = "\<lambda>v. phones_valid (snd v)"])
    (use assms in \<open>simp_all add: add_contact_def change_contact_def show_phone_def
      add_birthday_def show_birthday_def birthdays_def input_error_book
      add_contact_body_valid change_contact_body_valid add_birthday_body_valid
      show_phone_body_book show_birthday_body_book birthdays_body_book\<close>)

text \<open>
  Claim C6. For every text in the format DD.MM.YYYY that denotes a real calendar date
  and every contact of the book, \<open>Record.add_birthday\<close> returns, the handler
  \<open>add_birthday\<close> reports success and stores the text with the contact, and the handler
  \<open>show_birthday\<close> then answers with exactly this text after the contact's name.
\<close>

theorem birthday_round_trip:
  assumes "real_calendar_date text" "find book n = Some r"
  shows "\<exists>r' book'.
           fst (Record_add_birthday r text) = Inr () \<and>
           add_birthday [n, text] book = (Inr (''Birthday added for '' @ n @ ''.''), book') \<and>
           find book' n = Some r' \<and> map_option value (birthday r') = Some text \<and>
           show_birthday [n] book' = (Inr (n @ [CHR 0x27] @ ''s birthday is '' @ text), book')"
proof -
  from Birthday_init_real_date [OF assms(1)] obtain d where
    b: "Birthday_init text = Inr \<lparr>value = text, date = d\<rparr>" by blast
  define r' where "r' = r\<lparr>birthday := Some \<lparr>value = text, date = d\<rparr>\<rparr>"
  define book' where "book' = AList.update n r' book"
  have rec: "Record_add_birthday r text = (Inr (), r')"
    by (simp add: Record_add_birthday_def b r'_def)
  have add: "add_birthday [n, text] book = (Inr (''Birthday added for '' @ n @ ''.''), book')"
    by (simp add: add_birthday_def input_error_def add_birthday_body_def assms(2) rec book'_def)
  have fnd: "find book' n = Some r'" by (simp add: book'_def find_update)
  have shw: "show_birthday [n] book' = (Inr (n @ [CHR 0x27] @ ''s birthday is '' @ text), book')"
    by (simp add: show_birthday_def input_error_def show_birthday_body_def fnd r'_def)
  show ?thesis using rec add fnd shw by (auto simp: r'_def)
qed

theorem birthday_round_trip_witness:
  "real_calendar_date ''29.02.2024'' \<and>
   find [(''Bob'', Record_init ''Bob'')] ''Bob'' = Some (Record_init ''Bob'') \<and>
   (\<exists>r' book'.
      fst (Record_add_birthday (Record_init ''Bob'') ''29.02.2024'') = Inr () \<and>
      add_birthday [''Bob'', ''29.02.2024''] [(''Bob'', Record_init ''Bob'')] =
        (Inr ''Birthday added for Bob.'', book') \<and>
      find book' ''Bob'' = Some r' \<and> map_option value (birthday r') = Some ''29.02.2024'' \<and>
      show_birthday [''Bob''] book' =
        (Inr (''Bob'' @ [CHR 0x27] @ ''s birthday is 29.02.2024''), book'))"
proof -
  have r: "real_calendar_date ''29.02.2024''" by code_simp
  have f: "find [(''Bob'', Record_init ''Bob'')] ''Bob'' = Some (Record_init ''Bob'')"
    by (simp add: find_def)
  from birthday_round_trip [OF r f] r f show ?thesis by simp
qed

text \<open>
  Claim C10, as the code has it. For every book without the name: with every malformed
  phone text that is not empty, \<open>add_contact\<close> answers with the text of the validation
  error, and the book it leaves has a new entry for the name, at the end, with an empty
  list of phones; with the empty phone text, which is malformed too, the guard
  \<open>if phone:\<close> skips the validation, the same entry is added, and the handler answers
  that the contact is added, with no validation error.
\<close>

theorem add_contact_not_atomic:
  assumes "find book n = None"
  shows "(\<not> is_valid phone \<and> phone \<noteq> [] \<longrightarrow>
            add_contact [n, phone] book =
              (Inr ''Phone number must be 10 digits.'', book @ [(n, Record_init n)])) \<and>
         \<not> is_valid [] \<and>
         add_contact [n, []] book = (Inr ''Contact added.'', book @ [(n, Record_init n)]) \<and>
         find (book @ [(n, Record_init n)]) n = Some \<lparr>name = n, phones = [], birthday = None\<rparr>"
proof (intro conjI impI)
  have none: "map_of book n = None" using assms by (simp add: find_def)
  have b1: "add_record book (Record_init n) = book @ [(n, Record_init n)]"
    by (simp add: add_record_def Record_init_def update_absent [OF none])
  have fnd: "map_of (book @ [(n, Record_init n)]) n = Some (Record_init n)"
    using none by (simp add: map_add_Some_iff)
  have b2: "AList.update n (Record_init n) (book @ [(n, Record_init n)]) =
              book @ [(n, Record_init n)]"
    by (rule update_same [OF fnd])
  show "\<not> is_valid []" by (simp add: is_valid_def)
  show "find (book @ [(n, Record_init n)]) n = Some \<lparr>name = n, phones = [], birthday = None\<rparr>"
    using fnd by (simp add: find_def Record_init_def)
  have "add_contact_body [n, []] book = (Inr ''Contact added.'', book @ [(n, Record_init n)])"
    by (simp add: add_contact_body_def assms b1)
  then show "add_contact [n, []] book = (Inr ''Contact added.'', book @ [(n, Record_init n)])"
    by (simp add: add_contact_def input_error_def)
  assume a: "\<not> is_valid phone \<and> phone \<noteq> []"
  then have ph: "add_phone_t2 (Record_init n) phone =
              (Inl (ValueError ''Phone number must be 10 digits.''), Record_init n)"
    by (simp add: add_phone_t2_cases Record_init_def)
  have "add_contact_body [n, phone] book =
          (Inl (ValueError ''Phone number must be 10 digits.''), book @ [(n, Record_init n)])"
    using a by (simp add: add_contact_body_def assms b1 ph b2)
  then show "add_contact [n, phone] book =
      (Inr ''Phone number must be 10 digits.'', book @ [(n, Record_init n)])"
    by (simp add: add_contact_def input_error_def)
qed

text \<open>
  A book with Ann in it, to which Bob is added with a phone of five digits and with an
  empty phone.
\<close>

theorem add_contact_not_atomic_witness:
  "find [(''Ann'', Ann)] ''Bob'' = None \<and> \<not> is_valid ''12345'' \<and> ''12345'' \<noteq> [] \<and>
   add_contact [''Bob'', ''12345''] [(''Ann'', Ann)] =
     (Inr ''Phone number must be 10 digits.'', [(''Ann'', Ann), (''Bob'', Record_init ''Bob'')]) \<and>
   add_contact [''Bob'', []] [(''Ann'', Ann)] =
     (Inr ''Contact added.'', [(''Ann'', Ann), (''Bob'', Record_init ''Bob'')]) \<and>
   find [(''Ann'', Ann), (''Bob'', Record_init ''Bob'')] ''Bob'' =
     Some \<lparr>name = ''Bob'', phones = [], birthday = None\<rparr>"
proof -
  have f: "find [(''Ann'', Ann)] ''Bob'' = None" by (simp add: find_def)
  have v: "\<not> is_valid ''12345''" by (simp add: is_valid_def)
  have n: "''12345'' \<noteq> []" by simp
  from add_contact_not_atomic [OF f, of "''12345''"] f v n show ?thesis by simp
qed

text \<open>
  Claim C10 as stated fails for the empty text, which is malformed: the guard
  \<open>if phone:\<close> skips \<open>add_phone\<close>, and no validation error is reported.
\<close>

theorem add_contact_empty_phone_counterexample:
  "\<not> is_valid [] \<and> find [] ''Bob'' = None \<and>
   add_contact [''Bob'', []] [] =
     (Inr ''Contact added.'', [(''Bob'', \<lparr>name = ''Bob'', phones = [], birthday = None\<rparr>)])"
  by (simp add: is_valid_def find_def add_contact_def input_error_def add_contact_body_def
      add_record_def Record_init_def)

lemma main_loop_phones_valid:
  assumes "main_loop console book printed = (outcome, printed', book')" "phones_valid book"
  shows "phones_valid book'"
  using assms
proof (induction console book printed rule: main_loop.induct)
  case (1 book printed)
  then show ?case by simp
next
  case (2 today user_input console book printed)
  show ?case
  proof (cases "user_input = []")
    case True
    with "2.prems" have "main_loop console book (printed @ [''Please enter a command.'']) =
        (outcome, printed', book')" by simp
    from "2.IH"(1) [OF True this "2.prems"(2)] show ?thesis .
  next
    case False
    show ?thesis
    proof (cases "parse_input user_input")
      case (Inl e')
      with False "2.prems" show ?thesis by simp
    next
      case (Inr parsed)
      obtain command args where p: "parsed = (command, args)" by (cases parsed)
      show ?thesis
      proof (cases "command \<in> set [''close'', ''exit'']")
        case True
        with False Inr p "2.prems" show ?thesis by simp
      next
        case notexit: False
        from dispatch_returns [of today command args book] obtain msg book1
          where d: "dispatch today command args book = (Inr msg, book1)" by blast
        with dispatch_valid [OF "2.prems"(2), of today command args]
        have v: "phones_valid book1" by simp
        from d False Inr p notexit "2.prems"
        have "main_loop console book1 (printed @ [msg]) = (outcome, printed', book')"
          by simp
        from "2.IH"(2) [OF False Inr p [symmetric] notexit d [symmetric] refl this v]
        show ?thesis .
      qed
    qed
  qed
qed

text \<open>
  Claim C8. Whatever function \<open>input_error\<close> wraps, a \<open>KeyError\<close>, a \<open>ValueError\<close> or
  an \<open>IndexError\<close> raised by the function comes back as a returned text, with the book
  as the function left it. For the six wrapped handlers, with every list of arguments
  and every book: the wrapped call always returns a text; whatever the body raises is a
  \<open>ValueError\<close> (too few arguments included, which the unpacking reports as one), and
  its text is one line when the phones stored in the book are valid, as they are in
  every book the handlers build, or when no argument has a line feed. So no handler
  call of the loop raises, the handlers keep the stored phones valid, and \<open>main\<close> can only
  end by an exception when the console is exhausted or when \<open>parse_input\<close> raises on a
  line of blanks.
\<close>

theorem handler_errors_caught:
  "(\<forall>msg.
      (fst (func args book) = Inl KeyError \<longrightarrow>
         input_error func args book = (Inr ''Enter user name.'', snd (func args book))) \<and>
      (fst (func args book) = Inl (ValueError msg) \<longrightarrow>
         input_error func args book = (Inr msg, snd (func args book))) \<and>
      (fst (func args book) = Inl IndexError \<longrightarrow>
         input_error func args book =
           (Inr ''Enter a command and necessary arguments.'', snd (func args book)))) \<and>
   one_line ''Enter user name.'' \<and> one_line ''Enter a command and necessary arguments.'' \<and>
   (\<forall>handler \<in> set (wrapped_handlers today). \<forall>as bk.
      (\<exists>msg. input_error handler as bk = (Inr msg, snd (handler as bk))) \<and>
      (\<forall>e. fst (handler as bk) = Inl e \<longrightarrow>
         (\<exists>msg. e = ValueError msg \<and>
            input_error handler as bk = (Inr msg, snd (handler as bk)) \<and>
            (list_all one_line as \<or> phones_valid bk \<longrightarrow> one_line msg)))) \<and>
   (\<forall>command as bk.
      (\<exists>msg bk'. dispatch today command as bk = (Inr msg, bk')) \<and>
      (phones_valid bk \<longrightarrow> phones_valid (snd (dispatch today command as bk)))) \<and>
   (\<forall>console bk printed e printed' bk'.
      main_loop console bk printed = (Raised e, printed', bk') \<longrightarrow>
        e = EOFError \<or>
        (\<exists>(t, user_input) \<in> set console. parse_input user_input = Inl e))"
proof (intro conjI allI ballI impI)
  fix msg
  assume "fst (func args book) = Inl KeyError"
  then show "input_error func args book = (Inr ''Enter user name.'', snd (func args book))"
    by (cases "func args book") (simp add: input_error_def)
next
  fix msg
  assume "fst (func args book) = Inl (ValueError msg)"
  then show "input_error func args book = (Inr msg, snd (func args book))"
    by (rule input_error_ValueError)
next
  fix msg
  assume "fst (func args book) = Inl IndexError"
  then show "input_error func args book =
      (Inr ''Enter a command and necessary arguments.'', snd (func args book))"
    by (cases "func args book") (simp add: input_error_def)
next
  show "one_line ''Enter user name.''" by (simp add: one_line_Cons one_line_Nil)
next
  show "one_line ''Enter a command and necessary arguments.''"
    by (simp add: one_line_Cons one_line_Nil)
next
  fix handler as bk
  assume "handler \<in> set (wrapped_handlers today)"
  then show "\<exists>msg. input_error handler as bk = (Inr msg, snd (handler as bk))"
    by (rule wrapped_handlers_return)
next
  fix handler as bk e
  assume h: "handler \<in> set (wrapped_handlers today)" and e: "fst (handler as bk) = Inl e"
  from wrapped_handlers_error [OF h e] obtain msg where
    m: "e = ValueError msg" "list_all one_line as \<or> phones_valid bk \<longrightarrow> one_line msg"
    by blast
  from e m(1) have "fst (handler as bk) = Inl (ValueError msg)" by simp
  then have "input_error handler as bk = (Inr msg, snd (handler as bk))"
    by (rule input_error_ValueError [of handler as bk msg])
  with m show "\<exists>msg. e = ValueError msg \<and>
      input_error handler as bk = (Inr msg, snd (handler as bk)) \<and>
      (list_all one_line as \<or> phones_valid bk \<longrightarrow> one_line msg)"
    by blast
next
  fix command as bk
  show "\<exists>msg bk'. dispatch today command as bk = (Inr msg, bk')"
    by (rule dispatch_returns)
next
  fix command as bk
  assume "phones_valid bk"
  then show "phones_valid (snd (dispatch today command as bk))" by (rule dispatch_valid)
next
  fix console bk printed e printed' bk'
  assume "main_loop console bk printed = (Raised e, printed', bk')"
  then show "e = EOFError \<or>
      (\<exists>(t, user_input) \<in> set console. parse_input user_input = Inl e)"
    by (rule main_loop_raised)
qed

theorem handler_errors_caught_witness:
  "add_contact_body \<in> set (wrapped_handlers scenario_today) \<and>
   fst (add_contact_body [''Bob''] []) =
     Inl (ValueError ''not enough values to unpack (expected at least 2, got 1)'') \<and>
   phones_valid [] \<and>
   input_error add_contact_body [''Bob''] [] =
     (Inr ''not enough values to unpack (expected at least 2, got 1)'', []) \<and>
   one_line ''not enough values to unpack (expected at least 2, got 1)'' \<and>
   main_loop [(scenario_today, ''add Bob 12345''), (scenario_today, '' '')] [] [] =
     (Raised (unpack_error 1 0), [''Phone number must be 10 digits.''],
      [(''Bob'', \<lparr>name = ''Bob'', phones = [], birthday = None\<rparr>)]) \<and>
   parse_input '' '' = Inl (unpack_error 1 0)"
proof -
  note T = handler_errors_caught [of add_contact_body "[''Bob'']" "[]" scenario_today]
  have m: "add_contact_body \<in> set (wrapped_handlers scenario_today)"
    by (rule wrapped_handlers_member)
  have b: "add_contact_body [''Bob''] [] =
     (Inl (ValueError ''not enough values to unpack (expected at least 2, got 1)''), [])"
    by code_simp
  then have e: "fst (add_contact_body [''Bob''] []) =
     Inl (ValueError ''not enough values to unpack (expected at least 2, got 1)'')" by simp
  have v: "phones_valid []" by (simp add: phones_valid_def)
  from T m have "\<forall>as bk. \<forall>e. fst (add_contact_body as bk) = Inl e \<longrightarrow>
         (\<exists>msg. e = ValueError msg \<and>
            input_error add_contact_body as bk = (Inr msg, snd (add_contact_body as bk)) \<and>
            (list_all one_line as \<or> phones_valid bk \<longrightarrow> one_line msg))"
    by blast
  with e v b have i: "input_error add_contact_body [''Bob''] [] =
     (Inr ''not enough values to unpack (expected at least 2, got 1)'', [])"
    and o: "one_line ''not enough values to unpack (expected at least 2, got 1)''"
    by fastforce+
  have l: "main_loop [(scenario_today, ''add Bob 12345''), (scenario_today, '' '')] [] [] =
     (Raised (unpack_error 1 0), [''Phone number must be 10 digits.''],
      [(''Bob'', \<lparr>name = ''Bob'', phones = [], birthday = None\<rparr>)])"
    by code_simp
  have p: "parse_input '' '' = Inl (unpack_error 1 0)" by code_simp
  from m e v i o l p show ?thesis by (intro conjI)
qed

end
